theory Spec2Isabelle
  imports Complex_Main "HOL-Library.Word"
begin

unbundle bit_operations_syntax

section \<open>JavaScript numbers\<close>

text \<open>
  The encoder (\<^verbatim>\<open>GIFEncoder\<close>, the self-contained GIF encoder of the repository, also
  inlined verbatim by \<^verbatim>\<open>core/html-template.js\<close>) computes with JavaScript numbers that
  hold integers. They are modelled as \<^typ>\<open>int\<close>. The bitwise operators of JavaScript
  first convert their operands to a signed 32-bit integer (\<^verbatim>\<open>ToInt32\<close>); that
  conversion is written out, so that every wrap-around of the source is a wrap-around of the
  model.
\<close>

definition ToInt32 :: "int \<Rightarrow> int" where
  "ToInt32 x = (x + 2 ^ 31) mod 2 ^ 32 - 2 ^ 31"

text \<open>\<^verbatim>\<open>a & b\<close>\<close>
definition js_and :: "int \<Rightarrow> int \<Rightarrow> int" where
  "js_and a b = ToInt32 a AND ToInt32 b"

text \<open>\<^verbatim>\<open>a | b\<close>\<close>
definition js_or :: "int \<Rightarrow> int \<Rightarrow> int" where
  "js_or a b = ToInt32 a OR ToInt32 b"

text \<open>\<^verbatim>\<open>a << n\<close>: the shift count is taken modulo 32, the result is again a signed
  32-bit integer.\<close>
definition js_shl :: "int \<Rightarrow> int \<Rightarrow> int" where
  "js_shl a n = ToInt32 (push_bit (nat (n mod 32)) (ToInt32 a))"

text \<open>\<^verbatim>\<open>a >> n\<close>: the sign-propagating right shift.\<close>
definition js_shr :: "int \<Rightarrow> int \<Rightarrow> int" where
  "js_shr a n = drop_bit (nat (n mod 32)) (ToInt32 a)"

text \<open>\<^verbatim>\<open>Math.round\<close> rounds to the nearest integer, a tie towards plus infinity. The
  quotient \<^verbatim>\<open>delay / 10\<close> is taken over the reals: for an integer delay of less than
  \<open>2 ^ 53\<close> in magnitude the double-precision quotient rounds to the same integer.\<close>
definition Math_round :: "real \<Rightarrow> int" where
  "Math_round x = \<lfloor>x + 1 / 2\<rfloor>"

text \<open>A store into a \<^verbatim>\<open>Uint8Array\<close> keeps the value modulo 256.\<close>
definition ToUint8 :: "int \<Rightarrow> int" where
  "ToUint8 v = v mod 256"

section \<open>The encoder session\<close>

record encoder =
  width :: int
  height :: int
  data :: "int list"

definition GIFEncoder :: "int \<Rightarrow> int \<Rightarrow> encoder" where
  "GIFEncoder w h = \<lparr>width = w, height = h, data = []\<rparr>"

text \<open>A method body is a sequence of statements, each a state transformer; \<open>run\<close>
  executes them in order.\<close>
definition run :: "('s \<Rightarrow> 's) list \<Rightarrow> 's \<Rightarrow> 's" where
  "run stmts s = fold (\<lambda>stmt. stmt) stmts s"

definition writeByte :: "int \<Rightarrow> encoder \<Rightarrow> encoder" where
  "writeByte b e = e\<lparr>data := data e @ [js_and b 0xFF]\<rparr>"

definition writeShort :: "int \<Rightarrow> encoder \<Rightarrow> encoder" where
  "writeShort s = run
     [writeByte (js_and s 0xFF),
      writeByte (js_and (js_shr s 8) 0xFF)]"

definition writeString :: "string \<Rightarrow> encoder \<Rightarrow> encoder" where
  "writeString s e = fold (\<lambda>c. writeByte (of_char c)) s e"

definition start :: "encoder \<Rightarrow> encoder" where
  "start e = run
     [writeString ''GIF89a'',
      writeShort (width e),
      writeShort (height e),
      writeByte 0x70,
      writeByte 0,
      writeByte 0,
      writeByte 0x21,
      writeByte 0xFF,
      writeByte 0x0B,
      writeString ''NETSCAPE2.0'',
      writeByte 0x03,
      writeByte 0x01,
      writeShort 0,
      writeByte 0x00]
     (e\<lparr>data := []\<rparr>)"

text \<open>\<^verbatim>\<open>finish\<close> appends the trailer and returns the bytes of \<^verbatim>\<open>data\<close> as a blob; the
  session is returned with them.\<close>
definition finish :: "encoder \<Rightarrow> encoder \<times> int list" where
  "finish e = (let e' = writeByte 0x3B e in (e', map ToUint8 (data e')))"

section \<open>Colour quantiser and pixel indexer\<close>

text \<open>One element of \<^verbatim>\<open>ctx.getImageData(0, 0, width, height).data\<close> per channel: a
  \<^verbatim>\<open>Uint8ClampedArray\<close>, four bytes a pixel. The frame is the list of its pixels in
  row-major order.\<close>
datatype rgba = RGBA (red: "8 word") (green: "8 word") (blue: "8 word") (alpha: "8 word")

definition quantR :: "rgba \<Rightarrow> int" where
  "quantR px = js_and (uint (red px)) 0xF8"

definition quantG :: "rgba \<Rightarrow> int" where
  "quantG px = js_and (uint (green px)) 0xF8"

definition quantB :: "rgba \<Rightarrow> int" where
  "quantB px = js_and (uint (blue px)) 0xF8"

definition quantKey :: "rgba \<Rightarrow> int" where
  "quantKey px = js_or (js_or (js_shl (quantR px) 16) (js_shl (quantG px) 8)) (quantB px)"

text \<open>
  \<^verbatim>\<open>colorCounts\<close> is an object whose property names are the keys, all of them
  non-negative integers below \<open>2 ^ 24\<close>. \<^verbatim>\<open>Object.keys\<close> lists such properties in
  ascending numeric order, whatever the order of insertion; the object is therefore the
  association list of its (key, count) properties in ascending order of key. \<open>bump\<close> is
  the statement \<^verbatim>\<open>colorCounts[key] = (colorCounts[key] || 0) + 1\<close>.
\<close>
fun bump :: "int \<Rightarrow> (int \<times> int) list \<Rightarrow> (int \<times> int) list" where
  "bump k [] = [(k, 1)]"
| "bump k ((k', n) # rest) =
     (if k = k' then (k', n + 1) # rest
      else if k < k' then (k, 1) # (k', n) # rest
      else (k', n) # bump k rest)"

definition countColors :: "rgba list \<Rightarrow> (int \<times> int) list" where
  "countColors pixels = fold (\<lambda>px. bump (quantKey px)) pixels []"

text \<open>An element \<^verbatim>\<open>{ color: c, count: n }\<close> of \<^verbatim>\<open>sortedColors\<close> is the pair \<open>(c, n)\<close>.\<close>
definition color_of :: "int \<times> int \<Rightarrow> int" where
  "color_of e = fst e"

definition count_of :: "int \<times> int \<Rightarrow> int" where
  "count_of e = snd e"

text \<open>\<^verbatim>\<open>sort\<close> with the comparator \<^verbatim>\<open>b.count - a.count\<close> orders by descending count;
  it is stable (ECMAScript 2019), as insertion sort is. \<^verbatim>\<open>slice(0, 256)\<close> keeps the first
  256 elements.\<close>
definition sortedColors :: "rgba list \<Rightarrow> (int \<times> int) list" where
  "sortedColors pixels = take 256 (sort_key (\<lambda>e. - count_of e) (countColors pixels))"

definition paletteEntry :: "int \<Rightarrow> int list" where
  "paletteEntry c = [js_and (js_shr c 16) 0xFF, js_and (js_shr c 8) 0xFF, js_and c 0xFF]"

definition palette :: "rgba list \<Rightarrow> int list" where
  "palette pixels =
     (let p = concat (map (\<lambda>e. paletteEntry (color_of e)) (sortedColors pixels))
      in p @ replicate (256 * 3 - length p) 0)"

definition colorMap :: "rgba list \<Rightarrow> (int \<rightharpoonup> int)" where
  "colorMap pixels =
     fold (\<lambda>(i, e) m. m(color_of e \<mapsto> int i)) (enumerate 0 (sortedColors pixels)) Map.empty"

text \<open>The search for the closest colour: \<open>sqDist\<close> is the value of \<^verbatim>\<open>dist\<close> for the
  palette colour \<open>c\<close>, where \<open>r\<close>, \<open>g\<close> and \<open>b\<close> are the variables of the enclosing
  loop body. \<^verbatim>\<open>bestDist\<close> starts at \<^verbatim>\<open>Infinity\<close>, which is \<open>None\<close> here.\<close>
definition sqDist :: "int \<Rightarrow> int \<Rightarrow> int \<Rightarrow> int \<Rightarrow> int" where
  "sqDist r g b c =
     (let cr = js_and (js_shr c 16) 0xFF;
          cg = js_and (js_shr c 8) 0xFF;
          cb = js_and c 0xFF
      in (r - cr) * (r - cr) + (g - cg) * (g - cg) + (b - cb) * (b - cb))"

definition closestStep ::
  "int \<Rightarrow> int \<Rightarrow> int \<Rightarrow> nat \<times> (int \<times> int) \<Rightarrow> int option \<times> int \<Rightarrow> int option \<times> int" where
  "closestStep r g b = (\<lambda>(j, e) (bestDist, bestIdx).
     (let dist = sqDist r g b (color_of e)
      in if (case bestDist of None \<Rightarrow> True | Some d \<Rightarrow> dist < d)
         then (Some dist, int j) else (bestDist, bestIdx)))"

definition closest :: "int \<Rightarrow> int \<Rightarrow> int \<Rightarrow> (int \<times> int) list \<Rightarrow> int" where
  "closest r g b cols = snd (fold (closestStep r g b) (enumerate 0 cols) (None, 0))"

definition indexPixel :: "(int \<times> int) list \<Rightarrow> (int \<rightharpoonup> int) \<Rightarrow> rgba \<Rightarrow> int" where
  "indexPixel cols cmap px =
     (let r = quantR px; g = quantG px; b = quantB px;
          key = js_or (js_or (js_shl r 16) (js_shl g 8)) b
      in case cmap key of
           Some i \<Rightarrow> i
         | None \<Rightarrow> closest r g b cols)"

definition indexed :: "rgba list \<Rightarrow> int list" where
  "indexed pixels =
     map (\<lambda>px. ToUint8 (indexPixel (sortedColors pixels) (colorMap pixels) px)) pixels"

section \<open>Dictionary compressor and bit packer\<close>

text \<open>The local variables of \<^verbatim>\<open>lzwEncode\<close>. The property name \<^verbatim>\<open>prev + ',' + curr\<close> of
  \<^verbatim>\<open>dict\<close> is the pair of \<^verbatim>\<open>prev\<close> and \<^verbatim>\<open>curr\<close>. \<open>emitted\<close> is a history variable, not a variable
  of the source: it records every call of \<^verbatim>\<open>emit\<close>, the code together with the
  \<^verbatim>\<open>codeSize\<close> it was written with.\<close>
record lzw =
  codeSize :: int
  nextCode :: int
  dict :: "int \<times> int \<rightharpoonup> int"
  buffer :: int
  bufferLen :: int
  output_bytes :: "int list"
  prev :: int
  emitted :: "(int \<times> int) list"

definition clearCode :: int where
  "clearCode = 256"

definition eoiCode :: int where
  "eoiCode = 257"

function drain :: "lzw \<Rightarrow> lzw" where
  "drain s =
     (if bufferLen s \<ge> 8
      then drain (s\<lparr>output_bytes := output_bytes s @ [js_and (buffer s) 0xFF],
                    buffer := js_shr (buffer s) 8,
                    bufferLen := bufferLen s - 8\<rparr>)
      else s)"
  by pat_completeness auto
termination
  by (relation "measure (\<lambda>s. nat (bufferLen s))") auto

definition emit :: "int \<Rightarrow> lzw \<Rightarrow> lzw" where
  "emit code s =
     drain (s\<lparr>buffer := js_or (buffer s) (js_shl code (bufferLen s)),
               bufferLen := bufferLen s + codeSize s,
               emitted := emitted s @ [(code, codeSize s)]\<rparr>)"

definition register :: "int \<times> int \<Rightarrow> lzw \<Rightarrow> lzw" where
  "register key s =
     (let s' = s\<lparr>dict := (dict s)(key \<mapsto> nextCode s), nextCode := nextCode s + 1\<rparr>
      in if nextCode s' > js_shl 1 (codeSize s') \<and> codeSize s' < 12
         then s'\<lparr>codeSize := codeSize s' + 1\<rparr> else s')"

definition reset :: "lzw \<Rightarrow> lzw" where
  "reset s = (emit clearCode s)\<lparr>dict := Map.empty, codeSize := 9, nextCode := 258\<rparr>"

text \<open>The body of the loop over \<^verbatim>\<open>pixels[1 ..]\<close>.\<close>
definition lzwStep :: "int \<Rightarrow> lzw \<Rightarrow> lzw" where
  "lzwStep cur s =
     (let key = (prev s, cur)
      in case dict s key of
           Some code \<Rightarrow> s\<lparr>prev := code\<rparr>
         | None \<Rightarrow>
             (let s1 = emit (prev s) s;
                  s2 = (if nextCode s1 < 4096 then register key s1 else reset s1)
              in s2\<lparr>prev := cur\<rparr>))"

definition lzwInit :: lzw where
  "lzwInit = \<lparr>codeSize = 9, nextCode = 258, dict = Map.empty, buffer = 0, bufferLen = 0,
              output_bytes = [], prev = 0, emitted = []\<rparr>"

text \<open>The state after the loop. On an empty index plane \<^verbatim>\<open>pixels[0]\<close> is
  \<^verbatim>\<open>undefined\<close>, the loop does not run and \<^verbatim>\<open>emit(undefined)\<close> shifts in
  \<^verbatim>\<open>undefined << bufferLen\<close>, which is 0.\<close>
definition lzwLoop :: "int list \<Rightarrow> lzw" where
  "lzwLoop pixels =
     (case pixels of
        [] \<Rightarrow> (emit clearCode lzwInit)\<lparr>prev := 0\<rparr>
      | p # rest \<Rightarrow> fold lzwStep rest ((emit clearCode lzwInit)\<lparr>prev := p\<rparr>))"

definition flush :: "lzw \<Rightarrow> lzw" where
  "flush s = (if bufferLen s > 0 then s\<lparr>output_bytes := output_bytes s @ [js_and (buffer s) 0xFF]\<rparr> else s)"

definition lzwCompress :: "int list \<Rightarrow> lzw" where
  "lzwCompress pixels =
     (let s = lzwLoop pixels
      in flush (emit eoiCode (emit (prev s) s)))"

text \<open>\<^verbatim>\<open>output.slice(i, j)\<close> for \<open>i \<le> j \<le> length output\<close>.\<close>
definition slice :: "nat \<Rightarrow> nat \<Rightarrow> 'a list \<Rightarrow> 'a list" where
  "slice i j xs = take (j - i) (drop i xs)"

function writeSubBlocks :: "int list \<Rightarrow> nat \<Rightarrow> encoder \<Rightarrow> encoder" where
  "writeSubBlocks out i e =
     (if i < length out
      then (let chunk = slice i (min (i + 255) (length out)) out
            in writeSubBlocks out (i + 255)
                 (fold writeByte chunk (writeByte (int (length chunk)) e)))
      else e)"
  by pat_completeness auto
termination
  by (relation "measure (\<lambda>(out, i, e). length out - i)") auto

definition lzwEncode :: "int list \<Rightarrow> encoder \<Rightarrow> encoder" where
  "lzwEncode pixels e = writeSubBlocks (output_bytes (lzwCompress pixels)) 0 e"

section \<open>Adding a frame\<close>

text \<open>\<open>pixels\<close> is what \<^verbatim>\<open>ctx.getImageData(0, 0, width, height)\<close> returns, \<open>delay\<close> the
  requested delay in milliseconds.\<close>
definition addFrame :: "rgba list \<Rightarrow> int \<Rightarrow> encoder \<Rightarrow> encoder" where
  "addFrame pixels delay e = run
     [writeByte 0x21,
      writeByte 0xF9,
      writeByte 0x04,
      writeByte 0x00,
      writeShort (Math_round (real_of_int delay / 10)),
      writeByte 0x00,
      writeByte 0x00,
      writeByte 0x2C,
      writeShort 0,
      writeShort 0,
      writeShort (width e),
      writeShort (height e),
      writeByte 0x87,
      fold writeByte (palette pixels),
      writeByte 8,
      lzwEncode (indexed pixels),
      writeByte 0x00]
     e"

section \<open>Auxiliary notions\<close>

text \<open>The relation between \<^verbatim>\<open>codeSize\<close> and \<^verbatim>\<open>nextCode\<close> that the loop of
  \<^verbatim>\<open>lzwEncode\<close> maintains.\<close>
definition lzw_inv :: "lzw \<Rightarrow> bool" where
  "lzw_inv s \<longleftrightarrow> 258 \<le> nextCode s \<and>
     (codeSize s = 9 \<and> nextCode s \<le> 512
      \<or> codeSize s = 10 \<and> 512 < nextCode s \<and> nextCode s \<le> 1024
      \<or> codeSize s = 11 \<and> 1024 < nextCode s \<and> nextCode s \<le> 2048
      \<or> codeSize s = 12 \<and> 2048 < nextCode s \<and> nextCode s \<le> 4096)"

definition bytes_ok :: "int list \<Rightarrow> bool" where
  "bytes_ok bs \<longleftrightarrow> (\<forall>b \<in> set bs. 0 \<le> b \<and> b < 256)"

text \<open>The 2 x 2 all-black frame.\<close>
definition black4 :: "rgba list" where
  "black4 = [RGBA 0 0 0 255, RGBA 0 0 0 255, RGBA 0 0 0 255, RGBA 0 0 0 255]"

text \<open>The count that an association list of (key, count) pairs gives a key.\<close>
definition cnt :: "(int \<times> int) list \<Rightarrow> int \<Rightarrow> int" where
  "cnt xs k = (case map_of xs k of None \<Rightarrow> 0 | Some n \<Rightarrow> n)"

text \<open>The number of pixels of a frame whose quantised key is \<open>k\<close>.\<close>
definition occurrences :: "rgba list \<Rightarrow> int \<Rightarrow> int" where
  "occurrences pixels k = int (length (filter (\<lambda>px. quantKey px = k) pixels))"

text \<open>Index \<open>j\<close> is the first one of \<open>cols\<close> at which \<^verbatim>\<open>dist\<close> is least.\<close>
definition best_at :: "int \<Rightarrow> int \<Rightarrow> int \<Rightarrow> (int \<times> int) list \<Rightarrow> nat \<Rightarrow> bool" where
  "best_at r g b cols j \<longleftrightarrow> j < length cols
     \<and> (\<forall>k < length cols. sqDist r g b (color_of (cols ! j)) \<le> sqDist r g b (color_of (cols ! k)))
     \<and> (\<forall>k < j. sqDist r g b (color_of (cols ! j)) < sqDist r g b (color_of (cols ! k)))"

text \<open>A frame of four pixels and three quantised colours.\<close>
definition frame3 :: "rgba list" where
  "frame3 = [RGBA 0 0 0 255, RGBA 9 0 0 255, RGBA 250 20 30 255, RGBA 15 0 0 255]"

text \<open>A frame of 257 pixels with 257 distinct quantised keys: 256 pixels without red whose
  green and blue run over sixteen levels each, then the pixel (8, 7, 7). \<open>keyf n\<close> is the
  key of the \<open>n\<close>-th of them.\<close>
definition mk :: "nat \<Rightarrow> rgba" where
  "mk n = RGBA 0 (word_of_int (8 * (int n div 16))) (word_of_int (8 * (int n mod 16))) 255"

definition frame257 :: "rgba list" where
  "frame257 = map mk [0..<256] @ [RGBA 8 7 7 255]"

definition keyf :: "nat \<Rightarrow> int" where
  "keyf n = 2048 * (int n div 16) + 8 * (int n mod 16)"

text \<open>The distance of the search as the specification words it, taken from the original
  (unquantised) channels of the pixel instead of the variables \<^verbatim>\<open>r\<close>, \<^verbatim>\<open>g\<close>, \<^verbatim>\<open>b\<close> of the
  loop body, which hold the masked channels.\<close>
definition origDist :: "rgba \<Rightarrow> int \<Rightarrow> int" where
  "origDist px c = sqDist (uint (red px)) (uint (green px)) (uint (blue px)) c"

text \<open>The code width that belongs to a value of \<^verbatim>\<open>nextCode\<close>.\<close>
definition widthFor :: "int \<Rightarrow> int" where
  "widthFor n = (if n \<le> 512 then 9 else if n \<le> 1024 then 10 else if n \<le> 2048 then 11 else 12)"

text \<open>An index plane in which no two adjacent values occur twice as a pair, up to a length of
  32768: every iteration of the loop of \<^verbatim>\<open>lzwEncode\<close> registers a new dictionary entry until
  the dictionary is full.\<close>
definition fresh :: "nat \<Rightarrow> int" where
  "fresh i = (if even i then int (i div 2 div 128) else 128 + int (i div 2 mod 128))"

definition freshStream :: "nat \<Rightarrow> int list" where
  "freshStream n = map fresh [0..<n]"

text \<open>The \<open>w\<close> low bits of \<open>v\<close>, the least significant first: the order in which a reader of
  the payload takes the bits of a byte, and in which it assembles a code.\<close>
definition bitsOf :: "int \<Rightarrow> nat \<Rightarrow> bool list" where
  "bitsOf v w = map (bit v) [0..<w]"

text \<open>The bit string of a list of codes, each with its width.\<close>
definition codeBits :: "(int \<times> int) list \<Rightarrow> bool list" where
  "codeBits tr = concat (map (\<lambda>(c, w). bitsOf c (nat w)) tr)"

text \<open>The bit string of a list of bytes.\<close>
definition byteBits :: "int list \<Rightarrow> bool list" where
  "byteBits bs = concat (map (\<lambda>b. bitsOf b 8) bs)"

text \<open>The relation between the bytes pushed to \<^verbatim>\<open>output\<close>, the pending bits in \<^verbatim>\<open>buffer\<close>
  and the calls of \<^verbatim>\<open>emit\<close> so far, between two calls of \<^verbatim>\<open>emit\<close>: fewer than 8 bits are
  pending, \<^verbatim>\<open>buffer\<close> has no bit above them, and the bytes followed by the pending bits are
  the codes of the calls, each with the width \<^verbatim>\<open>codeSize\<close> had at its call.\<close>
definition pack_inv :: "lzw \<Rightarrow> bool" where
  "pack_inv s \<longleftrightarrow> 0 \<le> bufferLen s \<and> bufferLen s < 8
     \<and> take_bit (nat (bufferLen s)) (buffer s) = buffer s
     \<and> byteBits (output_bytes s) @ bitsOf (buffer s) (nat (bufferLen s)) = codeBits (emitted s)"

text \<open>What the loop of \<^verbatim>\<open>lzwEncode\<close> maintains on an index plane of byte values: every code in
  the dictionary and the code of the current sequence are below \<^verbatim>\<open>nextCode\<close>, so that every
  code fits the width it is written with.\<close>
definition run_inv :: "lzw \<Rightarrow> bool" where
  "run_inv s \<longleftrightarrow> lzw_inv s \<and> pack_inv s \<and> 0 \<le> prev s \<and> prev s < nextCode s
     \<and> (\<forall>k v. dict s k = Some v \<longrightarrow> 0 \<le> v \<and> v < nextCode s)"

section \<open>Basic facts\<close>

declare drain.simps [simp del]
declare writeSubBlocks.simps [simp del]

lemma ToInt32_signed: "ToInt32 x = signed_take_bit 31 x"
  by (simp add: ToInt32_def signed_take_bit_eq_take_bit_shift take_bit_eq_mod)

lemma ToInt32_id: "- (2 ^ 31) \<le> x \<Longrightarrow> x < 2 ^ 31 \<Longrightarrow> ToInt32 x = x"
  by (simp add: ToInt32_def)

lemma and_255: "(x::int) AND 255 = take_bit 8 x"
  by (simp add: take_bit_eq_mask mask_numeral)

lemma js_and_255: "js_and x 255 = x mod 256"
proof -
  have "take_bit 8 (signed_take_bit 31 x) = take_bit 8 x"
    by (simp add: take_bit_signed_take_bit)
  then show ?thesis
    by (simp add: js_and_def ToInt32_id and_255 ToInt32_signed take_bit_eq_mod)
qed

lemma js_shr8_mod: "js_shr x 8 mod 256 = (x div 256) mod 256"
proof -
  have "take_bit 8 (drop_bit 8 (signed_take_bit 31 x)) = take_bit 8 (drop_bit 8 x)"
    by (rule bit_eqI) (auto simp add: bit_simps)
  then show ?thesis
    by (simp add: js_shr_def ToInt32_signed take_bit_eq_mod drop_bit_eq_div)
qed

lemma Math_round_div10: "Math_round (real_of_int d / 10) = (d + 5) div 10"
proof -
  have "real_of_int d / 10 + 1/2 = real_of_int (d + 5) / real_of_int 10" by simp
  then show ?thesis unfolding Math_round_def by (simp only: floor_divide_of_int_eq)
qed

lemma data_writeByte: "data (writeByte b e) = data e @ [b mod 256]"
  by (simp add: writeByte_def js_and_255)

lemma width_writeByte: "width (writeByte b e) = width e"
  and height_writeByte: "height (writeByte b e) = height e"
  by (simp_all add: writeByte_def)

lemma run_Nil: "run [] s = s"
  and run_Cons: "run (f # fs) s = run fs (f s)"
  by (simp_all add: run_def)

lemma data_writeShort: "data (writeShort s e) = data e @ [s mod 256, s div 256 mod 256]"
  by (simp add: writeShort_def run_Nil run_Cons data_writeByte js_and_255 js_shr8_mod)

lemma data_writeString: "data (writeString s e) = data e @ map (\<lambda>c. of_char c mod 256) s"
  unfolding writeString_def
  by (induction s arbitrary: e) (simp_all add: data_writeByte)

lemma data_fold_writeByte: "data (fold writeByte bs e) = data e @ map (\<lambda>b. b mod 256) bs"
  by (induction bs arbitrary: e) (simp_all add: data_writeByte)

lemma start_data: "data (start e) =
  [0x47, 0x49, 0x46, 0x38, 0x39, 0x61,
   width e mod 256, width e div 256 mod 256,
   height e mod 256, height e div 256 mod 256,
   0x70, 0x00, 0x00,
   0x21, 0xFF, 0x0B,
   0x4E, 0x45, 0x54, 0x53, 0x43, 0x41, 0x50, 0x45, 0x32, 0x2E, 0x30,
   0x03, 0x01, 0x00, 0x00, 0x00]"
  by (simp add: start_def run_Nil run_Cons data_writeByte data_writeShort data_writeString)

lemma finish_data: "data (fst (finish e)) = data e @ [0x3B]"
  by (simp add: finish_def data_writeByte)

lemma le16: "(s::int) mod 256 + 256 * (s div 256 mod 256) = s mod 65536"
  using zmod_zmult2_eq [of 256 s 256] by simp


lemma writeSubBlocks_chunks:
  "\<exists>chunks. data (writeSubBlocks out i e) = data e @ concat (map (\<lambda>c. int (length c) # map (\<lambda>b. b mod 256) c) chunks)
     \<and> concat chunks = drop i out
     \<and> (\<forall>c \<in> set chunks. 1 \<le> length c \<and> length c \<le> 255)
     \<and> (\<forall>c \<in> set (butlast chunks). length c = 255)"
proof (induction out i e rule: writeSubBlocks.induct)
  case (1 out i e)
  show ?case
  proof (cases "i < length out")
    case False
    then have "writeSubBlocks out i e = e"
      by (simp add: writeSubBlocks.simps)
    then show ?thesis using False
      by (intro exI [of _ "[]"]) simp
  next
    case True
    define chunk where "chunk = slice i (min (i + 255) (length out)) out"
    define e' where "e' = fold writeByte chunk (writeByte (int (length chunk)) e)"
    have chunk: "chunk = take 255 (drop i out)"
      using True by (auto simp add: chunk_def slice_def min_def)
    have len: "1 \<le> length chunk" "length chunk \<le> 255"
      using True by (simp_all add: chunk)
    have step: "writeSubBlocks out i e = writeSubBlocks out (i + 255) e'"
      using True by (subst writeSubBlocks.simps) (simp add: chunk_def e'_def Let_def)
    from "1.IH" [OF True chunk_def] obtain chunks where
      ch: "data (writeSubBlocks out (i + 255) e') =
             data e' @ concat (map (\<lambda>c. int (length c) # map (\<lambda>b. b mod 256) c) chunks)"
        "concat chunks = drop (i + 255) out"
        "\<forall>c \<in> set chunks. 1 \<le> length c \<and> length c \<le> 255"
        "\<forall>c \<in> set (butlast chunks). length c = 255"
      unfolding e'_def by blast
    have de': "data e' = data e @ int (length chunk) # map (\<lambda>b. b mod 256) chunk"
      using len by (simp add: e'_def data_fold_writeByte data_writeByte)
    have full: "chunks \<noteq> [] \<Longrightarrow> length chunk = 255"
    proof -
      assume "chunks \<noteq> []"
      with ch(2,3) have "drop (i + 255) out \<noteq> []"
        by (cases chunks) auto
      then show ?thesis by (simp add: chunk)
    qed
    have "drop (i + 255) out = drop 255 (drop i out)"
      by (simp add: add.commute)
    then have cat: "concat (chunk # chunks) = drop i out"
      using ch(2) by (simp only: concat.simps chunk append_take_drop_id)
    show ?thesis
    proof (intro exI [of _ "chunk # chunks"] conjI)
      show "data (writeSubBlocks out i e) =
              data e @ concat (map (\<lambda>c. int (length c) # map (\<lambda>b. b mod 256) c) (chunk # chunks))"
        using ch(1) by (simp add: step de')
      show "concat (chunk # chunks) = drop i out"
        by (rule cat)
      show "\<forall>c \<in> set (chunk # chunks). 1 \<le> length c \<and> length c \<le> 255"
        using ch(3) len by simp
      show "\<forall>c \<in> set (butlast (chunk # chunks)). length c = 255"
        using ch(4) full by simp
    qed
  qed
qed

lemma drain_fields:
  "codeSize (drain s) = codeSize s \<and> nextCode (drain s) = nextCode s \<and> dict (drain s) = dict s
     \<and> prev (drain s) = prev s \<and> emitted (drain s) = emitted s"
proof (induction s rule: drain.induct)
  case (1 s)
  show ?case
  proof (cases "8 \<le> bufferLen s")
    case True
    with "1.IH" show ?thesis
      by (simp add: drain.simps [of s])
  next
    case False
    then show ?thesis
      by (simp add: drain.simps [of s])
  qed
qed

lemma emit_fields:
  "codeSize (emit c s) = codeSize s" "nextCode (emit c s) = nextCode s"
  "dict (emit c s) = dict s" "prev (emit c s) = prev s"
  "emitted (emit c s) = emitted s @ [(c, codeSize s)]"
  by (simp_all add: emit_def drain_fields)

lemma js_shl_1:
  "js_shl 1 9 = 512" "js_shl 1 10 = 1024" "js_shl 1 11 = 2048" "js_shl 1 12 = 4096"
  by (simp_all add: js_shl_def ToInt32_def)


lemma register_fields:
  assumes "lzw_inv s" "nextCode s < 4096"
  shows "dict (register key s) = (dict s)(key \<mapsto> nextCode s)"
    and "nextCode (register key s) = nextCode s + 1"
    and "codeSize (register key s) = (if nextCode s + 1 > 2 ^ nat (codeSize s) \<and> codeSize s < 12 then codeSize s + 1 else codeSize s)"
    and "prev (register key s) = prev s"
    and "emitted (register key s) = emitted s"
    and "lzw_inv (register key s)"
  using assms unfolding lzw_inv_def register_def Let_def
  by (auto simp add: js_shl_1)

lemma reset_fields:
  "dict (reset s) = Map.empty" "nextCode (reset s) = 258" "codeSize (reset s) = 9"
  "prev (reset s) = prev s" "emitted (reset s) = emitted s @ [(256, codeSize s)]"
  "lzw_inv (reset s)"
  by (simp_all add: reset_def emit_fields clearCode_def lzw_inv_def)

lemma lzw_inv_emit: "lzw_inv (emit c s) = lzw_inv s"
  by (simp add: lzw_inv_def emit_fields)

lemma lzw_inv_prev: "lzw_inv (s\<lparr>prev := p\<rparr>) = lzw_inv s"
  by (simp add: lzw_inv_def)

lemma lzw_inv_step: "lzw_inv s \<Longrightarrow> lzw_inv (lzwStep c s)"
  by (auto simp add: lzwStep_def Let_def lzw_inv_prev lzw_inv_emit register_fields reset_fields
      emit_fields split: option.splits)

lemma lzw_inv_fold: "lzw_inv s \<Longrightarrow> lzw_inv (fold lzwStep cs s)"
  by (induction cs arbitrary: s) (simp_all add: lzw_inv_step)

lemma lzw_inv_init: "lzw_inv ((emit clearCode lzwInit)\<lparr>prev := p\<rparr>)"
  by (simp add: lzw_inv_prev lzw_inv_emit) (simp add: lzw_inv_def lzwInit_def)

lemma lzw_inv_loop: "lzw_inv (lzwLoop pixels)"
  by (simp add: lzwLoop_def lzw_inv_init lzw_inv_fold split: list.splits)

lemma lzwStep_hit:
  "dict s (prev s, c) = Some code \<Longrightarrow> lzwStep c s = s\<lparr>prev := code\<rparr>"
  by (simp add: lzwStep_def)

lemma lzwStep_miss_room:
  assumes "lzw_inv s" "dict s (prev s, c) = None" "nextCode s < 4096"
  shows "emitted (lzwStep c s) = emitted s @ [(prev s, codeSize s)]"
    and "dict (lzwStep c s) = (dict s)((prev s, c) \<mapsto> nextCode s)"
    and "nextCode (lzwStep c s) = nextCode s + 1"
    and "codeSize (lzwStep c s) = (if nextCode s + 1 > 2 ^ nat (codeSize s) \<and> codeSize s < 12 then codeSize s + 1 else codeSize s)"
    and "prev (lzwStep c s) = c"
  using assms
  by (simp_all add: lzwStep_def Let_def emit_fields register_fields lzw_inv_emit)


lemma emitted_step: "\<exists>ys. emitted (lzwStep c s) = emitted s @ ys"
  by (auto simp add: lzwStep_def Let_def emit_fields reset_def register_def split: option.splits)

lemma emitted_fold: "\<exists>ys. emitted (fold lzwStep cs s) = emitted s @ ys"
proof (induction cs arbitrary: s)
  case Nil
  show ?case by simp
next
  case (Cons c cs)
  from emitted_step obtain ys where "emitted (lzwStep c s) = emitted s @ ys" by blast
  moreover from Cons obtain zs where
    "emitted (fold lzwStep cs (lzwStep c s)) = emitted (lzwStep c s) @ zs" by blast
  ultimately show ?case by simp
qed

lemma emitted_init: "emitted ((emit clearCode lzwInit)\<lparr>prev := p\<rparr>) = [(256, 9)]"
  by (simp add: emit_fields lzwInit_def clearCode_def)

lemma emitted_compress:
  "emitted (lzwCompress pixels) =
     emitted (lzwLoop pixels) @ [(prev (lzwLoop pixels), codeSize (lzwLoop pixels)),
                                 (257, codeSize (lzwLoop pixels))]"
  by (simp add: lzwCompress_def Let_def flush_def emit_fields eoiCode_def)

lemma codes_shape:
  "\<exists>mid. map fst (emitted (lzwCompress (p # rest))) = 256 # mid @ [prev (lzwLoop (p # rest)), 257]"
proof -
  from emitted_fold obtain ys where
    "emitted (fold lzwStep rest ((emit clearCode lzwInit)\<lparr>prev := p\<rparr>)) =
       emitted ((emit clearCode lzwInit)\<lparr>prev := p\<rparr>) @ ys" by blast
  then have "emitted (lzwLoop (p # rest)) = (256, 9) # ys"
    by (simp add: lzwLoop_def emitted_init)
  then have "map fst (emitted (lzwCompress (p # rest))) =
      256 # map fst ys @ [prev (lzwLoop (p # rest)), 257]"
    by (simp add: emitted_compress)
  then show ?thesis by (rule exI [of _ "map fst ys"])
qed

lemma codes_black: "map fst (emitted (lzwCompress [0, 0, 0, 0])) = [256, 0, 258, 0, 257]"
  by (simp add: emitted_compress lzwLoop_def lzwStep_def Let_def emit_fields register_def
        js_shl_1 lzwInit_def clearCode_def)

lemma bytes_ok_mod: "bytes_ok bs \<Longrightarrow> map (\<lambda>b. b mod 256) bs = bs"
  by (induction bs) (simp_all add: bytes_ok_def)

lemma bytes_ok_drain: "bytes_ok (output_bytes s) \<Longrightarrow> bytes_ok (output_bytes (drain s))"
proof (induction s rule: drain.induct)
  case (1 s)
  show ?case
  proof (cases "8 \<le> bufferLen s")
    case True
    have "bytes_ok (output_bytes s @ [js_and (buffer s) 255])"
      using "1.prems" by (simp add: bytes_ok_def js_and_255)
    with "1.IH" [OF True] show ?thesis
      by (simp add: drain.simps [of s] True)
  next
    case False
    with "1.prems" show ?thesis
      by (simp add: drain.simps [of s])
  qed
qed

lemma bytes_ok_emit: "bytes_ok (output_bytes s) \<Longrightarrow> bytes_ok (output_bytes (emit c s))"
  by (simp add: emit_def bytes_ok_drain)

lemma bytes_ok_step: "bytes_ok (output_bytes s) \<Longrightarrow> bytes_ok (output_bytes (lzwStep c s))"
  by (auto simp add: lzwStep_def Let_def register_def reset_def bytes_ok_emit split: option.splits)

lemma bytes_ok_fold: "bytes_ok (output_bytes s) \<Longrightarrow> bytes_ok (output_bytes (fold lzwStep cs s))"
  by (induction cs arbitrary: s) (simp_all add: bytes_ok_step)

lemma bytes_ok_loop: "bytes_ok (output_bytes (lzwLoop pixels))"
proof -
  have "bytes_ok (output_bytes (emit clearCode lzwInit))"
    by (rule bytes_ok_emit) (simp add: lzwInit_def bytes_ok_def)
  then have "bytes_ok (output_bytes ((emit clearCode lzwInit)\<lparr>prev := p\<rparr>))" for p
    by simp
  then show ?thesis
    by (auto simp add: lzwLoop_def bytes_ok_fold split: list.splits)
qed

lemma bytes_ok_compress: "bytes_ok (output_bytes (lzwCompress pixels))"
proof -
  have "bytes_ok (output_bytes (emit eoiCode (emit (prev (lzwLoop pixels)) (lzwLoop pixels))))"
    by (intro bytes_ok_emit bytes_ok_loop)
  then show ?thesis
    by (simp add: lzwCompress_def Let_def flush_def bytes_ok_def js_and_255)
qed

lemma bytes_ok_palette: "bytes_ok (palette pixels)"
  by (auto simp add: bytes_ok_def palette_def Let_def paletteEntry_def js_and_255)

lemma dims_writeShort: "width (writeShort s e) = width e" "height (writeShort s e) = height e"
  by (simp_all add: writeShort_def run_Nil run_Cons width_writeByte height_writeByte)

lemma lzwEncode_chunks:
  "\<exists>chunks. data (lzwEncode ix e) = data e @ concat (map (\<lambda>c. int (length c) # c) chunks)
     \<and> concat chunks = output_bytes (lzwCompress ix)
     \<and> (\<forall>c \<in> set chunks. 1 \<le> length c \<and> length c \<le> 255)
     \<and> (\<forall>c \<in> set (butlast chunks). length c = 255)"
proof -
  from writeSubBlocks_chunks [of "output_bytes (lzwCompress ix)" 0 e]
  obtain chunks where ch:
    "data (lzwEncode ix e) = data e @ concat (map (\<lambda>c. int (length c) # map (\<lambda>b. b mod 256) c) chunks)"
    "concat chunks = output_bytes (lzwCompress ix)"
    "\<forall>c \<in> set chunks. 1 \<le> length c \<and> length c \<le> 255"
    "\<forall>c \<in> set (butlast chunks). length c = 255"
    unfolding lzwEncode_def by auto
  have "bytes_ok (concat chunks)"
    by (simp only: ch(2) bytes_ok_compress)
  then have "\<forall>c \<in> set chunks. map (\<lambda>b. b mod 256) c = c"
    by (auto intro!: bytes_ok_mod simp add: bytes_ok_def)
  then have "map (\<lambda>c. int (length c) # map (\<lambda>b. b mod 256) c) chunks = map (\<lambda>c. int (length c) # c) chunks"
    by simp
  with ch show ?thesis by (intro exI [of _ chunks]) simp
qed

lemma addFrame_layout:
  "\<exists>chunks. data (addFrame pixels delay e) =
      data e @
      [0x21, 0xF9, 0x04, 0x00,
       Math_round (real_of_int delay / 10) mod 256, Math_round (real_of_int delay / 10) div 256 mod 256,
       0x00, 0x00,
       0x2C, 0, 0, 0, 0,
       width e mod 256, width e div 256 mod 256, height e mod 256, height e div 256 mod 256,
       0x87] @
      palette pixels @ [8] @ concat (map (\<lambda>c. int (length c) # c) chunks) @ [0]
     \<and> concat chunks = output_bytes (lzwCompress (indexed pixels))
     \<and> (\<forall>c \<in> set chunks. 1 \<le> length c \<and> length c \<le> 255)
     \<and> (\<forall>c \<in> set (butlast chunks). length c = 255)"
proof -
  define e1 where "e1 = run
     [writeByte 0x21, writeByte 0xF9, writeByte 0x04, writeByte 0x00,
      writeShort (Math_round (real_of_int delay / 10)),
      writeByte 0x00, writeByte 0x00, writeByte 0x2C,
      writeShort 0, writeShort 0, writeShort (width e), writeShort (height e),
      writeByte 0x87, fold writeByte (palette pixels), writeByte 8] e"
  have d1: "data e1 = data e @
      [0x21, 0xF9, 0x04, 0x00,
       Math_round (real_of_int delay / 10) mod 256, Math_round (real_of_int delay / 10) div 256 mod 256,
       0x00, 0x00,
       0x2C, 0, 0, 0, 0,
       width e mod 256, width e div 256 mod 256, height e mod 256, height e div 256 mod 256,
       0x87] @ palette pixels @ [8]"
    by (simp add: e1_def run_Nil run_Cons data_writeByte data_writeShort data_fold_writeByte
        bytes_ok_mod [OF bytes_ok_palette])
  have af: "addFrame pixels delay e = writeByte 0x00 (lzwEncode (indexed pixels) e1)"
    by (simp add: addFrame_def e1_def run_Nil run_Cons)
  from lzwEncode_chunks [of "indexed pixels" e1] obtain chunks where
    "data (lzwEncode (indexed pixels) e1) = data e1 @ concat (map (\<lambda>c. int (length c) # c) chunks)"
    "concat chunks = output_bytes (lzwCompress (indexed pixels))"
    "\<forall>c \<in> set chunks. 1 \<le> length c \<and> length c \<le> 255"
    "\<forall>c \<in> set (butlast chunks). length c = 255"
    by blast
  then show ?thesis
    by (intro exI [of _ chunks]) (simp add: af data_writeByte d1)
qed

lemma js_small:
  "js_and 0 248 = 0" "js_shl 0 16 = 0" "js_shl 0 8 = 0" "js_or 0 0 = 0" "js_shr 0 16 = 0" "js_shr 0 8 = 0"
  by (simp_all add: js_and_def js_shl_def js_or_def js_shr_def ToInt32_def)

lemma quant_black: "quantR (RGBA 0 0 0 255) = 0" "quantG (RGBA 0 0 0 255) = 0" "quantB (RGBA 0 0 0 255) = 0"
  "quantKey (RGBA 0 0 0 255) = 0"
  by (simp_all add: quantKey_def quantR_def quantG_def quantB_def js_small)

lemma sorted_black: "sortedColors black4 = [(0, 4)]"
  by (simp add: sortedColors_def countColors_def black4_def quant_black)

lemma indexed_black: "indexed black4 = [0, 0, 0, 0]"
  by (simp add: indexed_def sorted_black colorMap_def indexPixel_def Let_def quant_black js_small
      color_of_def ToUint8_def) (simp add: black4_def quant_black js_small)

lemma palette_black: "palette black4 = replicate 768 0"
proof -
  have "replicate 768 (0::int) = replicate 3 0 @ replicate 765 0"
    by (simp flip: replicate_add)
  then show ?thesis
    by (simp add: palette_def sorted_black paletteEntry_def color_of_def js_small js_and_255
        numeral_3_eq_3)
qed

lemma u16_low: "(s::int) mod 65536 mod 256 = s mod 256"
  by (simp add: mod_mod_cancel)

lemma u16_high: "(s::int) mod 65536 div 256 = s div 256 mod 256"
proof -
  have "s mod 65536 = 256 * (s div 256 mod 256) + s mod 256"
    using zmod_zmult2_eq [of 256 s 256] by simp
  then show ?thesis by simp
qed

lemma addFrame_prefix:
  "\<exists>rest. data (addFrame pixels delay e) =
      data e @
      [0x21, 0xF9, 0x04, 0x00,
       Math_round (real_of_int delay / 10) mod 256, Math_round (real_of_int delay / 10) div 256 mod 256,
       0x00, 0x00,
       0x2C, 0, 0, 0, 0,
       width e mod 256, width e div 256 mod 256, height e mod 256, height e div 256 mod 256,
       0x87] @ rest"
proof -
  from addFrame_layout [of pixels delay e] obtain chunks where
    "data (addFrame pixels delay e) =
      data e @
      [0x21, 0xF9, 0x04, 0x00,
       Math_round (real_of_int delay / 10) mod 256, Math_round (real_of_int delay / 10) div 256 mod 256,
       0x00, 0x00,
       0x2C, 0, 0, 0, 0,
       width e mod 256, width e div 256 mod 256, height e mod 256, height e div 256 mod 256,
       0x87] @
      palette pixels @ [8] @ concat (map (\<lambda>c. int (length c) # c) chunks) @ [0]"
    by blast
  then show ?thesis
    by (intro exI [of _ "palette pixels @ [8] @ concat (map (\<lambda>c. int (length c) # c) chunks) @ [0]"])
qed

lemma addFrame_prefix6:
  "\<exists>rest. data (addFrame pixels delay e) =
      data e @
      [0x21, 0xF9, 0x04, 0x00,
       Math_round (real_of_int delay / 10) mod 256, Math_round (real_of_int delay / 10) div 256 mod 256]
      @ rest"
proof -
  from addFrame_prefix [of pixels delay e] obtain rest where
    "data (addFrame pixels delay e) =
      data e @
      [0x21, 0xF9, 0x04, 0x00,
       Math_round (real_of_int delay / 10) mod 256, Math_round (real_of_int delay / 10) div 256 mod 256,
       0x00, 0x00,
       0x2C, 0, 0, 0, 0,
       width e mod 256, width e div 256 mod 256, height e mod 256, height e div 256 mod 256,
       0x87] @ rest"
    by blast
  then show ?thesis
    by (intro exI [of _ "[0x00, 0x00, 0x2C, 0, 0, 0, 0,
       width e mod 256, width e div 256 mod 256, height e mod 256, height e div 256 mod 256,
       0x87] @ rest"]) simp
qed

section \<open>The container header and trailer\<close>

text \<open>
  Claim C9. \<^verbatim>\<open>start()\<close> empties the buffer and writes, in this order, the ASCII signature
  \<^verbatim>\<open>GIF89a\<close> (six bytes), the width and the height as low byte then high byte, the flags
  byte 0x70, the background colour index 0, the pixel aspect ratio 0, and the looping
  application extension 0x21 0xFF 0x0B, the eleven bytes \<^verbatim>\<open>NETSCAPE2.0\<close>, 0x03 0x01, the loop
  count 0x00 0x00 and the terminator 0x00. \<^verbatim>\<open>finish()\<close> appends the single trailer byte 0x3B
  to whatever has been written, and the blob it returns ends with that byte.
\<close>
theorem start_finish_bytes:
  "data (start e) =
     map of_char ''GIF89a'' @
     [width e mod 256, width e div 256 mod 256, height e mod 256, height e div 256 mod 256] @
     [0x70, 0x00, 0x00] @
     [0x21, 0xFF, 0x0B] @ map of_char ''NETSCAPE2.0'' @ [0x03, 0x01, 0x00, 0x00, 0x00]
   \<and> map of_char ''GIF89a'' = [0x47, 0x49, 0x46, 0x38, 0x39, 0x61 :: int]
   \<and> length (map of_char ''NETSCAPE2.0'' :: int list) = 11
   \<and> data (fst (finish e)) = data e @ [0x3B]
   \<and> snd (finish e) = map ToUint8 (data e) @ [0x3B]"
  by (simp add: start_data finish_def data_writeByte ToUint8_def)

section \<open>Sixteen-bit fields\<close>

text \<open>
  Claim C10. \<^verbatim>\<open>writeShort\<close> writes its argument modulo \<open>2 ^ 16\<close>, low byte first: for every
  integer \<open>s\<close> the two bytes are those of \<open>s mod 65536\<close>, so that two arguments that differ by a
  multiple of 65536 are written alike and no argument is rejected. This is how the canvas width
  and height (in \<^verbatim>\<open>start\<close>), the frame width and height and the rounded centisecond delay (in
  \<^verbatim>\<open>addFrame\<close>) are written; a width of 65541 is written as 0x05 0x00 and a delay of 655400
  ms, that is 65540 centiseconds, as 0x04 0x00.
\<close>
theorem writeShort_wraps:
  "data (writeShort s e) = data e @ [s mod 65536 mod 256, s mod 65536 div 256]
   \<and> data (writeShort (s + 65536 * k) e) = data (writeShort s e)
   \<and> (\<exists>rest. data (start e) =
         map of_char ''GIF89a'' @
         [width e mod 65536 mod 256, width e mod 65536 div 256,
          height e mod 65536 mod 256, height e mod 65536 div 256] @ rest)
   \<and> (\<exists>rest. data (addFrame pixels delay e) =
         data e @ [0x21, 0xF9, 0x04, 0x00,
           Math_round (real_of_int delay / 10) mod 65536 mod 256,
           Math_round (real_of_int delay / 10) mod 65536 div 256,
           0x00, 0x00, 0x2C, 0, 0, 0, 0,
           width e mod 65536 mod 256, width e mod 65536 div 256,
           height e mod 65536 mod 256, height e mod 65536 div 256] @ rest)
   \<and> data (writeShort 65541 e) = data e @ [0x05, 0x00]
   \<and> (\<exists>rest. data (addFrame pixels 655400 e) = data e @ [0x21, 0xF9, 0x04, 0x00, 0x04, 0x00] @ rest)"
proof (intro conjI)
  show "data (writeShort s e) = data e @ [s mod 65536 mod 256, s mod 65536 div 256]"
    by (simp add: data_writeShort u16_low u16_high)
  have "(s + 65536 * k) mod 256 = s mod 256"
    using mod_mult_self2 [of s 256 "256 * k"] by simp
  moreover have "(s + 65536 * k) div 256 mod 256 = s div 256 mod 256"
  proof -
    have "(s + 65536 * k) div 256 = s div 256 + 256 * k"
      using div_mult_self2 [of 256 s "256 * k"] by simp
    then show ?thesis by simp
  qed
  ultimately show "data (writeShort (s + 65536 * k) e) = data (writeShort s e)"
    by (simp add: data_writeShort)
  show "\<exists>rest. data (start e) =
         map of_char ''GIF89a'' @
         [width e mod 65536 mod 256, width e mod 65536 div 256,
          height e mod 65536 mod 256, height e mod 65536 div 256] @ rest"
    by (simp add: start_data u16_low u16_high)
  from addFrame_prefix [of pixels delay e] obtain rest where
    "data (addFrame pixels delay e) =
      data e @
      [0x21, 0xF9, 0x04, 0x00,
       Math_round (real_of_int delay / 10) mod 256, Math_round (real_of_int delay / 10) div 256 mod 256,
       0x00, 0x00,
       0x2C, 0, 0, 0, 0,
       width e mod 256, width e div 256 mod 256, height e mod 256, height e div 256 mod 256,
       0x87] @ rest" by blast
  then show "\<exists>rest. data (addFrame pixels delay e) =
         data e @ [0x21, 0xF9, 0x04, 0x00,
           Math_round (real_of_int delay / 10) mod 65536 mod 256,
           Math_round (real_of_int delay / 10) mod 65536 div 256,
           0x00, 0x00, 0x2C, 0, 0, 0, 0,
           width e mod 65536 mod 256, width e mod 65536 div 256,
           height e mod 65536 mod 256, height e mod 65536 div 256] @ rest"
    by (simp add: u16_low u16_high)
  show "data (writeShort 65541 e) = data e @ [0x05, 0x00]"
    by (simp add: data_writeShort)
  from addFrame_prefix6 [of pixels 655400 e, unfolded Math_round_div10]
  show "\<exists>rest. data (addFrame pixels 655400 e) = data e @ [0x21, 0xF9, 0x04, 0x00, 0x04, 0x00] @ rest"
    by simp
qed

section \<open>The delay of a frame\<close>

text \<open>
  Claim C8. For every frame, every session and every delay \<open>d\<close> in milliseconds, \<^verbatim>\<open>addFrame\<close>
  appends the graphic control extension 0x21 0xF9 0x04 0x00 followed by the two delay bytes, which
  are the low and the high byte of \<open>c = Math.round(d / 10)\<close>: together they are \<open>c\<close> modulo
  \<open>2 ^ 16\<close> in little-endian order. \<open>c\<close> is \<open>d / 10\<close> rounded to the nearest integer, a tie
  upwards. A delay of 45 ms gives the bytes 0x05 0x00 and a delay of 0 ms the bytes 0x00 0x00.
\<close>
theorem delay_bytes:
  "(\<exists>rest. data (addFrame pixels d e) =
       data e @ [0x21, 0xF9, 0x04, 0x00,
                 Math_round (real_of_int d / 10) mod 256,
                 Math_round (real_of_int d / 10) div 256 mod 256] @ rest)
   \<and> Math_round (real_of_int d / 10) mod 256 + 256 * (Math_round (real_of_int d / 10) div 256 mod 256)
       = Math_round (real_of_int d / 10) mod 65536
   \<and> Math_round (real_of_int d / 10) = (d + 5) div 10
   \<and> Math_round (real_of_int 45 / 10) = 5
   \<and> (\<exists>rest. data (addFrame pixels 45 e) = data e @ [0x21, 0xF9, 0x04, 0x00, 0x05, 0x00] @ rest)
   \<and> (\<exists>rest. data (addFrame pixels 0 e) = data e @ [0x21, 0xF9, 0x04, 0x00, 0x00, 0x00] @ rest)"
proof (intro conjI)
  show "\<exists>rest. data (addFrame pixels d e) =
       data e @ [0x21, 0xF9, 0x04, 0x00,
                 Math_round (real_of_int d / 10) mod 256,
                 Math_round (real_of_int d / 10) div 256 mod 256] @ rest"
    by (rule addFrame_prefix6)
  show "Math_round (real_of_int d / 10) mod 256 + 256 * (Math_round (real_of_int d / 10) div 256 mod 256)
       = Math_round (real_of_int d / 10) mod 65536"
    by (rule le16)
  show "Math_round (real_of_int d / 10) = (d + 5) div 10"
    by (rule Math_round_div10)
  show "Math_round (real_of_int 45 / 10) = 5"
    by (simp only: Math_round_div10)
  from addFrame_prefix6 [of pixels 45 e, unfolded Math_round_div10]
  show "\<exists>rest. data (addFrame pixels 45 e) = data e @ [0x21, 0xF9, 0x04, 0x00, 0x05, 0x00] @ rest"
    by simp
  from addFrame_prefix6 [of pixels 0 e, unfolded Math_round_div10]
  show "\<exists>rest. data (addFrame pixels 0 e) = data e @ [0x21, 0xF9, 0x04, 0x00, 0x00, 0x00] @ rest"
    by simp
qed

section \<open>The full dictionary\<close>


section \<open>Facts about keys, counts and the palette\<close>

lemma ToInt32_take_bit: "ToInt32 (take_bit 24 x) = take_bit 24 x"
proof -
  have 1: "- (2 ^ 31) \<le> (0::int)" by simp
  have 2: "(0::int) \<le> take_bit 24 x" by simp
  have 3: "take_bit 24 x < (2::int) ^ 24" by (rule take_bit_int_less_exp)
  have 4: "(2::int) ^ 24 < 2 ^ 31" by simp
  show ?thesis
    by (rule ToInt32_id) (rule order_trans [OF 1 2], rule less_trans [OF 3 4])
qed

lemma ToInt32_take_bit8: "ToInt32 (take_bit 8 x) = take_bit 8 x"
  using ToInt32_take_bit [of "take_bit 8 x"] by simp

lemma uint8_take_bit: "uint (w :: 8 word) = take_bit 8 (uint w)"
  by (rule bit_eqI) (auto simp add: bit_simps dest: bit_imp_le_length)

lemma js_and_248: "js_and (uint (w :: 8 word)) 248 = take_bit 8 (uint w AND 248)"
proof -
  have "ToInt32 (uint w) = uint w"
    by (subst (1 2) uint8_take_bit) (rule ToInt32_take_bit8)
  moreover have "ToInt32 248 = 248"
    by (simp add: ToInt32_def)
  moreover have "uint w AND 248 = take_bit 8 (uint w AND 248)"
    by (rule bit_eqI) (auto simp add: bit_simps dest: bit_imp_le_length)
  ultimately show ?thesis by (simp add: js_and_def)
qed

lemma key_pack:
  "js_or (js_or (js_shl (take_bit 8 r) 16) (js_shl (take_bit 8 g) 8)) (take_bit 8 b)
   = take_bit 24 (push_bit 16 (take_bit 8 r) OR push_bit 8 (take_bit 8 g) OR take_bit 8 b)"
proof -
  have a: "push_bit 16 (take_bit 8 r :: int) = take_bit 24 (push_bit 16 (take_bit 8 r))"
    by (rule bit_eqI) (auto simp add: bit_simps)
  have b: "push_bit 8 (take_bit 8 g :: int) = take_bit 24 (push_bit 8 (take_bit 8 g))"
    by (rule bit_eqI) (auto simp add: bit_simps)
  have c: "(take_bit 8 b :: int) = take_bit 24 (take_bit 8 b)"
    by simp
  note d = ToInt32_take_bit8
  have s1: "js_shl (take_bit 8 r) 16 = take_bit 24 (push_bit 16 (take_bit 8 r))"
    unfolding js_shl_def d using a ToInt32_take_bit [of "push_bit 16 (take_bit 8 r)"] by simp
  have s2: "js_shl (take_bit 8 g) 8 = take_bit 24 (push_bit 8 (take_bit 8 g))"
    unfolding js_shl_def d using b ToInt32_take_bit [of "push_bit 8 (take_bit 8 g)"] by simp
  have o1: "js_or (take_bit 24 x) (take_bit 24 y) = take_bit 24 (x OR y)" for x y
    by (simp add: js_or_def ToInt32_take_bit)
  show ?thesis
    unfolding s1 s2 by (subst c) (simp only: o1 or.assoc)
qed

lemma key_unpack:
  fixes r g b :: int
  defines "k \<equiv> take_bit 24 (push_bit 16 (take_bit 8 r) OR push_bit 8 (take_bit 8 g) OR take_bit 8 b)"
  shows "js_and (js_shr k 16) 255 = take_bit 8 r"
    and "js_and (js_shr k 8) 255 = take_bit 8 g"
    and "js_and k 255 = take_bit 8 b"
proof -
  have t: "ToInt32 k = k" unfolding k_def by (rule ToInt32_take_bit)
  have "take_bit 8 (drop_bit 16 k) = take_bit 8 r"
    unfolding k_def by (rule bit_eqI) (auto simp add: bit_simps)
  then show "js_and (js_shr k 16) 255 = take_bit 8 r"
    by (simp add: js_and_255 js_shr_def t take_bit_eq_mod)
  have "take_bit 8 (drop_bit 8 k) = take_bit 8 g"
    unfolding k_def by (rule bit_eqI) (auto simp add: bit_simps)
  then show "js_and (js_shr k 8) 255 = take_bit 8 g"
    by (simp add: js_and_255 js_shr_def t take_bit_eq_mod)
  have "take_bit 8 k = take_bit 8 b"
    unfolding k_def by (rule bit_eqI) (auto simp add: bit_simps)
  then show "js_and k 255 = take_bit 8 b"
    by (simp add: js_and_255 take_bit_eq_mod)
qed

lemma quant_take_bit:
  "quantR px = take_bit 8 (quantR px)" "quantG px = take_bit 8 (quantG px)" "quantB px = take_bit 8 (quantB px)"
  by (simp_all add: quantR_def quantG_def quantB_def js_and_248)

lemma quantKey_eq:
  "quantKey px = take_bit 24 (push_bit 16 (quantR px) OR push_bit 8 (quantG px) OR quantB px)"
proof -
  define r g b where "r = quantR px" and "g = quantG px" and "b = quantB px"
  have t: "take_bit 8 r = r" "take_bit 8 g = g" "take_bit 8 b = b"
    unfolding r_def g_def b_def by (rule quant_take_bit [symmetric])+
  from key_pack [of r g b, unfolded t] show ?thesis
    unfolding quantKey_def r_def g_def b_def .
qed

lemma paletteEntry_quantKey: "paletteEntry (quantKey px) = [quantR px, quantG px, quantB px]"
proof -
  define r g b where "r = quantR px" and "g = quantG px" and "b = quantB px"
  have t: "take_bit 8 r = r" "take_bit 8 g = g" "take_bit 8 b = b"
    unfolding r_def g_def b_def by (rule quant_take_bit [symmetric])+
  note u = key_unpack [of r g b, unfolded t]
  show ?thesis
    unfolding paletteEntry_def quantKey_eq
    using u by (simp only: r_def g_def b_def)
qed

lemma quant_bounds:
  "0 \<le> quantR px" "quantR px < 256" "0 \<le> quantG px" "quantG px < 256" "0 \<le> quantB px" "quantB px < 256"
proof -
  have "0 \<le> take_bit 8 x \<and> take_bit 8 x < 256" for x :: int
    using take_bit_int_less_exp [of 8 x] by simp
  from this [of "quantR px"] this [of "quantG px"] this [of "quantB px"]
  show "0 \<le> quantR px" "quantR px < 256" "0 \<le> quantG px" "quantG px < 256" "0 \<le> quantB px" "quantB px < 256"
    by (simp_all flip: quant_take_bit)
qed

lemma bump_keys: "set (map fst (bump k xs)) = insert k (set (map fst xs))"
  by (induction k xs rule: bump.induct) auto

lemma bump_sorted: "sorted_wrt (<) (map fst xs) \<Longrightarrow> sorted_wrt (<) (map fst (bump k xs))"
proof (induction k xs rule: bump.induct)
  case (1 k)
  show ?case by simp
next
  case (2 k k' n rest)
  then show ?case
    by (auto simp add: bump_keys [of k rest, simplified])
qed

lemma bump_cnt:
  "sorted_wrt (<) (map fst xs) \<Longrightarrow> cnt (bump k xs) q = cnt xs q + (if q = k then 1 else 0)"
proof (induction k xs rule: bump.induct)
  case (1 k)
  show ?case by (simp add: cnt_def)
next
  case (2 k k' n rest)
  show ?case
  proof (cases "k = k'")
    case True
    then show ?thesis by (simp add: cnt_def)
  next
    case False
    note ne = this
    show ?thesis
    proof (cases "k < k'")
      case True
      have "map_of rest k = None"
      proof (rule ccontr)
        assume "map_of rest k \<noteq> None"
        then have "k \<in> fst ` set rest" by (auto dest: map_of_SomeD intro: rev_image_eqI)
        with "2.prems" have "k' < k" by auto
        with True show False by simp
      qed
      with True ne show ?thesis by (simp add: cnt_def)
    next
      case False
      from "2.prems" have "sorted_wrt (<) (map fst rest)" by simp
      from "2.IH" [OF ne False this] ne False show ?thesis
        by (cases "q = k") (simp_all add: cnt_def)
    qed
  qed
qed

lemma bump_pos: "\<forall>e \<in> set xs. 0 < snd e \<Longrightarrow> \<forall>e \<in> set (bump k xs). 0 < snd e"
  by (induction k xs rule: bump.induct) auto

lemma fold_bump:
  assumes "sorted_wrt (<) (map fst acc)" "\<forall>e \<in> set acc. 0 < snd e"
  shows "sorted_wrt (<) (map fst (fold (\<lambda>px. bump (quantKey px)) pxs acc))
     \<and> (\<forall>e \<in> set (fold (\<lambda>px. bump (quantKey px)) pxs acc). 0 < snd e)
     \<and> set (map fst (fold (\<lambda>px. bump (quantKey px)) pxs acc)) = set (map fst acc) \<union> quantKey ` set pxs
     \<and> (\<forall>k. cnt (fold (\<lambda>px. bump (quantKey px)) pxs acc) k = cnt acc k + occurrences pxs k)"
  using assms
proof (induction pxs arbitrary: acc)
  case Nil
  then show ?case by (simp add: occurrences_def)
next
  case (Cons px pxs)
  have s: "sorted_wrt (<) (map fst (bump (quantKey px) acc))"
    using Cons.prems(1) by (rule bump_sorted)
  have p: "\<forall>e \<in> set (bump (quantKey px) acc). 0 < snd e"
    using Cons.prems(2) by (rule bump_pos)
  from Cons.IH [OF s p] show ?case
    using bump_keys [of "quantKey px" acc] bump_cnt [OF Cons.prems(1), of "quantKey px"]
    by (auto simp add: occurrences_def)
qed

lemma countColors_props:
  "sorted_wrt (<) (map fst (countColors pixels))"
  "set (map fst (countColors pixels)) = quantKey ` set pixels"
  "cnt (countColors pixels) k = occurrences pixels k"
  "\<forall>e \<in> set (countColors pixels). 0 < snd e"
  using fold_bump [of "[]" pixels] by (simp_all add: countColors_def cnt_def)

lemma countColors_distinct: "distinct (map fst (countColors pixels))"
  using countColors_props(1) [of pixels] by (simp add: strict_sorted_iff)

lemma countColors_count:
  assumes "e \<in> set (countColors pixels)"
  shows "snd e = occurrences pixels (fst e)"
proof -
  obtain a b where e: "e = (a, b)" by (cases e)
  with assms have "(a, b) \<in> set (countColors pixels)" by simp
  with countColors_distinct [of pixels] have "map_of (countColors pixels) a = Some b"
    by simp
  with e have "map_of (countColors pixels) (fst e) = Some (snd e)"
    by simp
  then have "cnt (countColors pixels) (fst e) = snd e"
    by (simp add: cnt_def)
  then show ?thesis by (simp add: countColors_props)
qed

lemma countColors_length: "length (countColors pixels) = card (quantKey ` set pixels)"
proof -
  have "card (set (map fst (countColors pixels))) = length (map fst (countColors pixels))"
    by (rule distinct_card) (rule countColors_distinct)
  then show ?thesis by (simp only: countColors_props(2)) simp
qed

lemma sortedColors_length: "length (sortedColors pixels) \<le> 256"
  by (simp add: sortedColors_def)

lemma sortedColors_subset: "set (sortedColors pixels) \<subseteq> set (countColors pixels)"
  unfolding sortedColors_def using set_take_subset [of 256 "sort_key (\<lambda>e. - count_of e) (countColors pixels)"]
  by simp

lemma sortedColors_distinct: "distinct (map color_of (sortedColors pixels))"
proof -
  have c: "color_of = fst" by (rule ext) (simp add: color_of_def)
  have "distinct (map fst (sort_key (\<lambda>e. - count_of e) (countColors pixels)))"
    using countColors_distinct [of pixels] by (simp add: distinct_map)
  then have "distinct (take 256 (map fst (sort_key (\<lambda>e. - count_of e) (countColors pixels))))"
    by (rule distinct_take)
  then show ?thesis by (simp add: sortedColors_def c take_map)
qed

lemma sortedColors_desc:
  assumes "i \<le> j" "j < length (sortedColors pixels)"
  shows "count_of (sortedColors pixels ! j) \<le> count_of (sortedColors pixels ! i)"
proof -
  have "sorted (map (\<lambda>e. - count_of e) (sort_key (\<lambda>e. - count_of e) (countColors pixels)))"
    by (rule sorted_sort_key)
  then have "sorted (take 256 (map (\<lambda>e. - count_of e) (sort_key (\<lambda>e. - count_of e) (countColors pixels))))"
    by (rule sorted_wrt_take)
  then have "sorted (map (\<lambda>e. - count_of e) (sortedColors pixels))"
    by (simp add: sortedColors_def take_map)
  from sorted_nth_mono [OF this, of i j] assms show ?thesis by simp
qed

lemma sortedColors_count:
  assumes "e \<in> set (sortedColors pixels)"
  shows "count_of e = occurrences pixels (color_of e)" "color_of e \<in> quantKey ` set pixels"
proof -
  from assms sortedColors_subset have m: "e \<in> set (countColors pixels)" by blast
  then show "count_of e = occurrences pixels (color_of e)"
    by (simp add: count_of_def color_of_def countColors_count)
  from m have "fst e \<in> set (map fst (countColors pixels))" by simp
  then show "color_of e \<in> quantKey ` set pixels"
    by (simp only: countColors_props(2) color_of_def)
qed

lemma sortedColors_exact:
  assumes "card (quantKey ` set pixels) \<le> 256"
  shows "color_of ` set (sortedColors pixels) = quantKey ` set pixels"
proof -
  have "length (sort_key (\<lambda>e. - count_of e) (countColors pixels)) \<le> 256"
    using assms by (simp add: countColors_length)
  then have "sortedColors pixels = sort_key (\<lambda>e. - count_of e) (countColors pixels)"
    by (simp add: sortedColors_def)
  then have "set (sortedColors pixels) = set (countColors pixels)" by simp
  then have "fst ` set (sortedColors pixels) = set (map fst (countColors pixels))" by simp
  moreover have c: "color_of = fst" by (rule ext) (simp add: color_of_def)
  ultimately show ?thesis by (simp only: countColors_props(2))
qed

lemma cm_notin:
  "k \<notin> color_of ` set xs \<Longrightarrow>
   fold (\<lambda>(i, e) m. m(color_of e \<mapsto> int i)) (enumerate n xs) m k = m k"
  by (induction xs arbitrary: n m) simp_all

lemma cm_in:
  "distinct (map color_of xs) \<Longrightarrow> j < length xs \<Longrightarrow>
   fold (\<lambda>(i, e) m. m(color_of e \<mapsto> int i)) (enumerate n xs) m (color_of (xs ! j)) = Some (int (n + j))"
proof (induction xs arbitrary: n m j)
  case Nil
  then show ?case by simp
next
  case (Cons x xs)
  show ?case
  proof (cases j)
    case 0
    from Cons.prems(1) have "color_of x \<notin> color_of ` set xs" by simp
    from cm_notin [OF this, of "Suc n" "m(color_of x \<mapsto> int n)"] 0 show ?thesis
      by (simp del: fun_upd_apply) simp
  next
    case (Suc j')
    with Cons.prems have "distinct (map color_of xs)" "j' < length xs" by simp_all
    from Cons.IH [OF this, of "Suc n" "m(color_of x \<mapsto> int n)"] Suc show ?thesis
      by (simp del: fun_upd_apply)
  qed
qed

lemma cm_range:
  "fold (\<lambda>(i, e) m. m(color_of e \<mapsto> int i)) (enumerate n xs) m k = Some v \<Longrightarrow>
   m k = Some v \<or> (int n \<le> v \<and> v < int (n + length xs))"
proof (induction xs arbitrary: n m)
  case Nil
  then show ?case by simp
next
  case (Cons x xs)
  from Cons.prems have
    "fold (\<lambda>(i, e) m. m(color_of e \<mapsto> int i)) (enumerate (Suc n) xs) (m(color_of x \<mapsto> int n)) k = Some v"
    by (simp del: fun_upd_apply)
  from Cons.IH [OF this] show ?case
    by (auto split: if_splits)
qed

lemma colorMap_hit:
  "j < length (sortedColors pixels) \<Longrightarrow>
   colorMap pixels (color_of (sortedColors pixels ! j)) = Some (int j)"
  unfolding colorMap_def using cm_in [OF sortedColors_distinct, of j pixels 0] by simp

lemma colorMap_miss:
  "k \<notin> color_of ` set (sortedColors pixels) \<Longrightarrow> colorMap pixels k = None"
  unfolding colorMap_def using cm_notin [of k "sortedColors pixels" 0 Map.empty] by simp

lemma colorMap_range:
  "colorMap pixels k = Some v \<Longrightarrow> 0 \<le> v \<and> v < int (length (sortedColors pixels))"
  unfolding colorMap_def using cm_range [of 0 "sortedColors pixels" Map.empty k v] by simp

lemma colorMap_Some_iff:
  "colorMap pixels k = Some v \<longleftrightarrow>
     (0 \<le> v \<and> nat v < length (sortedColors pixels) \<and> color_of (sortedColors pixels ! nat v) = k)"
proof
  assume a: "colorMap pixels k = Some v"
  from colorMap_range [OF a] have r: "0 \<le> v" "nat v < length (sortedColors pixels)"
    by linarith+
  have "k \<in> color_of ` set (sortedColors pixels)"
    using a colorMap_miss [of k pixels] by force
  then obtain j where j: "j < length (sortedColors pixels)" "color_of (sortedColors pixels ! j) = k"
    by (auto simp add: in_set_conv_nth)
  from colorMap_hit [OF j(1)] j(2) a have "v = int j" by simp
  with r j show "0 \<le> v \<and> nat v < length (sortedColors pixels) \<and> color_of (sortedColors pixels ! nat v) = k"
    by simp
next
  assume "0 \<le> v \<and> nat v < length (sortedColors pixels) \<and> color_of (sortedColors pixels ! nat v) = k"
  then show "colorMap pixels k = Some v"
    using colorMap_hit [of "nat v" pixels] by simp
qed



lemma closest_fold:
  "fold (closestStep r g b) (enumerate 0 cols) (None, 0) =
     (if cols = [] then (None, 0)
      else (Some (sqDist r g b (color_of (cols ! nat (closest r g b cols)))), closest r g b cols))
   \<and> (cols \<noteq> [] \<longrightarrow> 0 \<le> closest r g b cols \<and> best_at r g b cols (nat (closest r g b cols)))"
proof (induction cols rule: rev_induct)
  case Nil
  show ?case by (simp add: closest_def)
next
  case (snoc x xs)
  define st where "st = fold (closestStep r g b) (enumerate 0 xs) (None, 0)"
  have f: "fold (closestStep r g b) (enumerate 0 (xs @ [x])) (None, 0) = closestStep r g b (length xs, x) st"
    by (simp add: enumerate_append_eq st_def)
  have c: "closest r g b (xs @ [x]) = snd (closestStep r g b (length xs, x) st)"
    by (simp add: closest_def f)
  show ?case
  proof (cases "xs = []")
    case True
    then have "st = (None, 0)" by (simp add: st_def)
    then have s: "closestStep r g b (length xs, x) st = (Some (sqDist r g b (color_of x)), 0)"
      using True by (simp add: closestStep_def Let_def)
    show ?thesis
      unfolding f c s using True by (simp add: best_at_def)
  next
    case False
    define j where "j = nat (closest r g b xs)"
    from snoc False have st: "st = (Some (sqDist r g b (color_of (xs ! j))), closest r g b xs)"
      and nn: "0 \<le> closest r g b xs" and ba: "best_at r g b xs j"
      by (simp_all add: st_def j_def)
    from ba have jl: "j < length xs" by (simp add: best_at_def)
    show ?thesis
    proof (cases "sqDist r g b (color_of x) < sqDist r g b (color_of (xs ! j))")
      case True
      then have s: "closestStep r g b (length xs, x) st = (Some (sqDist r g b (color_of x)), int (length xs))"
        by (simp add: closestStep_def Let_def st)
      have "best_at r g b (xs @ [x]) (length xs)"
        unfolding best_at_def using True ba
        by (auto simp add: nth_append best_at_def less_Suc_eq intro: less_le_trans order.strict_implies_order)
      then show ?thesis
        unfolding f c s by simp
    next
      case False
      then have s: "closestStep r g b (length xs, x) st = st"
        by (simp add: closestStep_def Let_def st)
      have "best_at r g b (xs @ [x]) j"
        unfolding best_at_def using False ba jl
        by (auto simp add: nth_append best_at_def less_Suc_eq)
      then show ?thesis
        unfolding f c s using jl nn by (simp add: st j_def nth_append)
    qed
  qed
qed

lemma closest_best: "cols \<noteq> [] \<Longrightarrow> 0 \<le> closest r g b cols \<and> best_at r g b cols (nat (closest r g b cols))"
  using closest_fold [of r g b cols] by simp

lemma indexPixel_eq:
  "indexPixel cols cmap px =
     (case cmap (quantKey px) of Some i \<Rightarrow> i
      | None \<Rightarrow> closest (quantR px) (quantG px) (quantB px) cols)"
  by (simp add: indexPixel_def quantKey_def Let_def)

lemma sortedColors_nonempty: "pixels \<noteq> [] \<Longrightarrow> sortedColors pixels \<noteq> []"
proof -
  assume "pixels \<noteq> []"
  then have "set (map fst (countColors pixels)) \<noteq> {}"
    by (simp only: countColors_props(2)) simp
  then have "countColors pixels \<noteq> []" by auto
  then have "sort_key (\<lambda>e. - count_of e) (countColors pixels) \<noteq> []"
    by (metis length_sort length_0_conv)
  then show ?thesis by (simp add: sortedColors_def)
qed

lemma indexPixel_bound:
  assumes "pixels \<noteq> []"
  shows "0 \<le> indexPixel (sortedColors pixels) (colorMap pixels) px
       \<and> indexPixel (sortedColors pixels) (colorMap pixels) px < int (length (sortedColors pixels))"
proof (cases "colorMap pixels (quantKey px)")
  case None
  from closest_best [OF sortedColors_nonempty [OF assms], of "quantR px" "quantG px" "quantB px"]
  have "0 \<le> closest (quantR px) (quantG px) (quantB px) (sortedColors pixels)"
    and "nat (closest (quantR px) (quantG px) (quantB px) (sortedColors pixels)) < length (sortedColors pixels)"
    by (simp_all add: best_at_def)
  with None show ?thesis by (simp add: indexPixel_eq)
next
  case (Some v)
  from colorMap_range [OF Some] Some show ?thesis by (simp add: indexPixel_eq)
qed

lemma indexed_nth:
  assumes "i < length pixels"
  shows "indexed pixels ! i = indexPixel (sortedColors pixels) (colorMap pixels) (pixels ! i)"
    and "0 \<le> indexed pixels ! i" and "indexed pixels ! i < int (length (sortedColors pixels))"
proof -
  from assms have ne: "pixels \<noteq> []" by auto
  from indexPixel_bound [OF ne, of "pixels ! i"] sortedColors_length [of pixels]
  have b: "0 \<le> indexPixel (sortedColors pixels) (colorMap pixels) (pixels ! i)"
    "indexPixel (sortedColors pixels) (colorMap pixels) (pixels ! i) < int (length (sortedColors pixels))"
    "indexPixel (sortedColors pixels) (colorMap pixels) (pixels ! i) < 256"
    by linarith+
  then show e: "indexed pixels ! i = indexPixel (sortedColors pixels) (colorMap pixels) (pixels ! i)"
    using assms by (simp add: indexed_def ToUint8_def)
  from b show "0 \<le> indexed pixels ! i" "indexed pixels ! i < int (length (sortedColors pixels))"
    by (simp_all only: e)
qed

lemma indexed_length: "length (indexed pixels) = length pixels"
  by (simp add: indexed_def)

lemma indexed_bytes: "v \<in> set (indexed pixels) \<Longrightarrow> 0 \<le> v \<and> v < 256"
proof -
  assume "v \<in> set (indexed pixels)"
  then obtain i where i: "i < length pixels" "indexed pixels ! i = v"
    by (auto simp add: in_set_conv_nth indexed_length)
  from indexed_nth(2,3) [OF i(1)] sortedColors_length [of pixels] i(2) show ?thesis
    by linarith
qed

lemma concat_entries_length: "length (concat (map (\<lambda>e. paletteEntry (color_of e)) xs)) = 3 * length xs"
  by (induction xs) (simp_all add: paletteEntry_def)

lemma concat_entries_nth:
  "j < length xs \<Longrightarrow>
   take 3 (drop (3 * j) (concat (map (\<lambda>e. paletteEntry (color_of e)) xs) @ ys)) = paletteEntry (color_of (xs ! j))"
proof (induction xs arbitrary: j)
  case Nil
  then show ?case by simp
next
  case (Cons x xs)
  show ?case
  proof (cases j)
    case 0
    then show ?thesis by (simp add: paletteEntry_def)
  next
    case (Suc j')
    with Cons.prems have "j' < length xs" by simp
    have e: "3 * j = 3 * j' + 3" using Suc by simp
    have "drop (3 * j) (concat (map (\<lambda>e. paletteEntry (color_of e)) (x # xs)) @ ys)
        = drop (3 * j') (drop 3 (concat (map (\<lambda>e. paletteEntry (color_of e)) (x # xs)) @ ys))"
      by (simp only: e drop_drop)
    also have "drop 3 (concat (map (\<lambda>e. paletteEntry (color_of e)) (x # xs)) @ ys)
        = concat (map (\<lambda>e. paletteEntry (color_of e)) xs) @ ys"
      by (simp add: paletteEntry_def)
    finally show ?thesis
      using Cons.IH [OF \<open>j' < length xs\<close>] Suc by simp
  qed
qed

lemma palette_eq:
  "palette pixels = concat (map (\<lambda>e. paletteEntry (color_of e)) (sortedColors pixels))
      @ replicate (768 - 3 * length (sortedColors pixels)) 0"
  by (simp add: palette_def Let_def concat_entries_length)

lemma palette_length: "length (palette pixels) = 768"
  using sortedColors_length [of pixels] by (simp add: palette_eq concat_entries_length)

lemma palette_entry:
  "j < length (sortedColors pixels) \<Longrightarrow>
   take 3 (drop (3 * j) (palette pixels)) = paletteEntry (color_of (sortedColors pixels ! j))"
  unfolding palette_eq by (rule concat_entries_nth)

lemma quant_top5:
  "quantR px = 8 * (uint (red px) div 8)" "quantG px = 8 * (uint (green px) div 8)"
  "quantB px = 8 * (uint (blue px) div 8)"
proof -
  have "take_bit 8 (uint w AND 248) = 8 * (uint w div 8)" for w :: "8 word"
  proof -
    have m: "(248::int) = push_bit 3 (mask 5)" by (simp add: mask_numeral)
    have "take_bit 8 (uint w AND 248) = push_bit 3 (drop_bit 3 (uint w))"
      by (subst m) (rule bit_eqI, auto simp add: bit_simps dest: bit_imp_le_length)
    then show ?thesis by (simp add: push_bit_eq_mult drop_bit_eq_div)
  qed
  then show "quantR px = 8 * (uint (red px) div 8)" "quantG px = 8 * (uint (green px) div 8)"
    "quantB px = 8 * (uint (blue px) div 8)"
    by (simp_all add: quantR_def quantG_def quantB_def js_and_248)
qed

lemma out_black: "output_bytes (lzwCompress [0, 0, 0, 0]) = [0, 1, 8, 4, 16, 16]"
proof -
  define d1 :: "int \<times> int \<rightharpoonup> int" where "d1 = Map.empty((0, 0) \<mapsto> 258)"
  define d2 :: "int \<times> int \<rightharpoonup> int" where "d2 = d1((258, 0) \<mapsto> 259)"
  note ev = emit_def drain.simps js_shl_def js_or_def js_shr_def js_and_def ToInt32_def
  have h1: "(emit clearCode lzwInit)\<lparr>prev := 0\<rparr> =
      \<lparr>codeSize = 9, nextCode = 258, dict = Map.empty, buffer = 1, bufferLen = 1,
       output_bytes = [0], prev = 0, emitted = [(256, 9)]\<rparr>"
    by (simp add: ev lzwInit_def clearCode_def)
  have h2: "lzwStep 0 \<lparr>codeSize = 9, nextCode = 258, dict = Map.empty, buffer = 1, bufferLen = 1,
       output_bytes = [0], prev = 0, emitted = [(256, 9)]\<rparr> =
      \<lparr>codeSize = 9, nextCode = 259, dict = d1, buffer = 0, bufferLen = 2,
       output_bytes = [0, 1], prev = 0, emitted = [(256, 9), (0, 9)]\<rparr>"
    by (simp add: lzwStep_def register_def Let_def ev d1_def)
  have h3: "lzwStep 0 \<lparr>codeSize = 9, nextCode = 259, dict = d1, buffer = 0, bufferLen = 2,
       output_bytes = [0, 1], prev = 0, emitted = [(256, 9), (0, 9)]\<rparr> =
      \<lparr>codeSize = 9, nextCode = 259, dict = d1, buffer = 0, bufferLen = 2,
       output_bytes = [0, 1], prev = 258, emitted = [(256, 9), (0, 9)]\<rparr>"
    by (simp add: lzwStep_def d1_def)
  have h4: "lzwStep 0 \<lparr>codeSize = 9, nextCode = 259, dict = d1, buffer = 0, bufferLen = 2,
       output_bytes = [0, 1], prev = 258, emitted = [(256, 9), (0, 9)]\<rparr> =
      \<lparr>codeSize = 9, nextCode = 260, dict = d2, buffer = 4, bufferLen = 3,
       output_bytes = [0, 1, 8], prev = 0, emitted = [(256, 9), (0, 9), (258, 9)]\<rparr>"
    by (simp add: lzwStep_def register_def Let_def ev d2_def d1_def)
  have l: "lzwLoop [0, 0, 0, 0] = \<lparr>codeSize = 9, nextCode = 260, dict = d2, buffer = 4, bufferLen = 3,
       output_bytes = [0, 1, 8], prev = 0, emitted = [(256, 9), (0, 9), (258, 9)]\<rparr>"
    by (simp add: lzwLoop_def h1 h2 h3 h4)
  have h5: "emit 0 \<lparr>codeSize = 9, nextCode = 260, dict = d2, buffer = 4, bufferLen = 3,
       output_bytes = [0, 1, 8], prev = 0, emitted = [(256, 9), (0, 9), (258, 9)]\<rparr> =
      \<lparr>codeSize = 9, nextCode = 260, dict = d2, buffer = 0, bufferLen = 4,
       output_bytes = [0, 1, 8, 4], prev = 0, emitted = [(256, 9), (0, 9), (258, 9), (0, 9)]\<rparr>"
    by (simp add: ev)
  have h6: "emit eoiCode \<lparr>codeSize = 9, nextCode = 260, dict = d2, buffer = 0, bufferLen = 4,
       output_bytes = [0, 1, 8, 4], prev = 0, emitted = [(256, 9), (0, 9), (258, 9), (0, 9)]\<rparr> =
      \<lparr>codeSize = 9, nextCode = 260, dict = d2, buffer = 16, bufferLen = 5,
       output_bytes = [0, 1, 8, 4, 16], prev = 0, emitted = [(256, 9), (0, 9), (258, 9), (0, 9), (257, 9)]\<rparr>"
    by (simp add: ev eoiCode_def)
  show ?thesis
    by (simp add: lzwCompress_def l h5 h6 flush_def js_and_255)
qed

lemma quant_word:
  "quantR px = uint (red px AND 0xF8)" "quantG px = uint (green px AND 0xF8)"
  "quantB px = uint (blue px AND 0xF8)"
proof -
  have "take_bit 8 (uint w AND 248) = uint (w AND 248)" for w :: "8 word"
    by (rule bit_eqI) (auto simp add: bit_simps dest: bit_imp_le_length)
  then show "quantR px = uint (red px AND 0xF8)" "quantG px = uint (green px AND 0xF8)"
    "quantB px = uint (blue px AND 0xF8)"
    by (simp_all add: quantR_def quantG_def quantB_def js_and_248)
qed

section \<open>The local colour table and the index plane\<close>

text \<open>
  Claim C6. For every frame, the palette that \<^verbatim>\<open>addFrame\<close> writes after the image
  descriptor has exactly \<open>256 * 3 = 768\<close> bytes: three bytes for each of the at most 256
  retained colours, in their order, then zeros. The bytes are written unchanged, right after the
  flags byte 0x87. The index plane has one value for each pixel and every value is at least 0 and
  below 256.
\<close>
theorem palette_size:
  "length (palette pixels) = 256 * 3
   \<and> length (sortedColors pixels) \<le> 256
   \<and> palette pixels =
       concat (map (\<lambda>e. paletteEntry (color_of e)) (sortedColors pixels))
       @ replicate (256 * 3 - 3 * length (sortedColors pixels)) 0
   \<and> (\<exists>rest. data (addFrame pixels delay e) =
         data e @
         [0x21, 0xF9, 0x04, 0x00,
          Math_round (real_of_int delay / 10) mod 256, Math_round (real_of_int delay / 10) div 256 mod 256,
          0x00, 0x00,
          0x2C, 0, 0, 0, 0,
          width e mod 256, width e div 256 mod 256, height e mod 256, height e div 256 mod 256,
          0x87] @ palette pixels @ rest)
   \<and> length (indexed pixels) = length pixels
   \<and> (\<forall>v \<in> set (indexed pixels). 0 \<le> v \<and> v < 256)"
proof -
  from addFrame_layout [of pixels delay e] obtain chunks where
    "data (addFrame pixels delay e) =
      data e @
      [0x21, 0xF9, 0x04, 0x00,
       Math_round (real_of_int delay / 10) mod 256, Math_round (real_of_int delay / 10) div 256 mod 256,
       0x00, 0x00,
       0x2C, 0, 0, 0, 0,
       width e mod 256, width e div 256 mod 256, height e mod 256, height e div 256 mod 256,
       0x87] @
      palette pixels @ [8] @ concat (map (\<lambda>c. int (length c) # c) chunks) @ [0]"
    by blast
  then have "\<exists>rest. data (addFrame pixels delay e) =
         data e @
         [0x21, 0xF9, 0x04, 0x00,
          Math_round (real_of_int delay / 10) mod 256, Math_round (real_of_int delay / 10) div 256 mod 256,
          0x00, 0x00,
          0x2C, 0, 0, 0, 0,
          width e mod 256, width e div 256 mod 256, height e mod 256, height e div 256 mod 256,
          0x87] @ palette pixels @ rest"
    by (intro exI [of _ "[8] @ concat (map (\<lambda>c. int (length c) # c) chunks) @ [0]"])
  moreover have "\<forall>v \<in> set (indexed pixels). 0 \<le> v \<and> v < 256"
    using indexed_bytes by blast
  moreover have "length (palette pixels) = 256 * 3"
    by (simp add: palette_length)
  moreover have "palette pixels =
       concat (map (\<lambda>e. paletteEntry (color_of e)) (sortedColors pixels))
       @ replicate (256 * 3 - 3 * length (sortedColors pixels)) 0"
    using palette_eq [of pixels] by simp
  moreover note sortedColors_length [of pixels] indexed_length [of pixels]
  ultimately show ?thesis
    by (intro conjI)
qed

theorem palette_size_witness:
  "length (palette black4) = 768 \<and> palette black4 = replicate 768 0
   \<and> indexed black4 = [0, 0, 0, 0] \<and> 0 \<le> indexed black4 ! 2 \<and> indexed black4 ! 2 < 256"
proof -
  have "indexed black4 ! 2 \<in> set (indexed black4)"
    by (simp add: indexed_black)
  with palette_size [of black4 45 "GIFEncoder 2 2"]
  have "length (palette black4) = 256 * 3"
    and "0 \<le> indexed black4 ! 2 \<and> indexed black4 ! 2 < 256"
    by blast+
  then show ?thesis
    by (simp add: palette_black indexed_black)
qed

section \<open>Sub-blocks\<close>

text \<open>
  Claim C7. For every frame, what \<^verbatim>\<open>addFrame\<close> writes after the minimum code size byte 8
  is a sequence of sub-blocks, each one a length byte followed by that many bytes, and then one
  byte 0, which ends the frame's data. The sub-blocks, concatenated, are the packed output of the
  compressor; every one has between 1 and 255 bytes, and every one but the last has 255.
\<close>
theorem sub_blocks:
  "\<exists>chunks.
      data (addFrame pixels delay e) =
        data e @
        [0x21, 0xF9, 0x04, 0x00,
         Math_round (real_of_int delay / 10) mod 256, Math_round (real_of_int delay / 10) div 256 mod 256,
         0x00, 0x00,
         0x2C, 0, 0, 0, 0,
         width e mod 256, width e div 256 mod 256, height e mod 256, height e div 256 mod 256,
         0x87] @
        palette pixels @ [8] @ concat (map (\<lambda>c. int (length c) # c) chunks) @ [0]
    \<and> concat chunks = output_bytes (lzwCompress (indexed pixels))
    \<and> (\<forall>c \<in> set chunks. 1 \<le> length c \<and> length c \<le> 255)
    \<and> (\<forall>c \<in> set (butlast chunks). length c = 255)"
  by (rule addFrame_layout)

theorem sub_blocks_witness:
  "data (addFrame black4 45 (GIFEncoder 2 2)) =
     [0x21, 0xF9, 0x04, 0x00, 0x05, 0x00, 0x00, 0x00,
      0x2C, 0, 0, 0, 0, 2, 0, 2, 0, 0x87] @
     replicate 768 0 @ [8] @ [6, 0, 1, 8, 4, 16, 16] @ [0]"
proof -
  from sub_blocks [of black4 45 "GIFEncoder 2 2", unfolded Math_round_div10]
  obtain chunks where
    d: "data (addFrame black4 45 (GIFEncoder 2 2)) =
        [0x21, 0xF9, 0x04, 0x00, 0x05, 0x00, 0x00, 0x00,
         0x2C, 0, 0, 0, 0, 2, 0, 2, 0, 0x87] @
        replicate 768 0 @ [8] @ concat (map (\<lambda>c. int (length c) # c) chunks) @ [0]"
    and c: "concat chunks = [0, 1, 8, 4, 16, 16]"
    and b: "\<forall>c \<in> set (butlast chunks). length c = 255"
    by (auto simp add: palette_black indexed_black out_black GIFEncoder_def)
  from c obtain x xs where ch: "chunks = x # xs" by (cases chunks) auto
  have "xs = []"
  proof (rule ccontr)
    assume "xs \<noteq> []"
    with b ch have "length x = 255" by simp
    moreover from c ch have "length x \<le> length [0, 1, 8, 4, 16, 16 :: int]"
      by (metis length_append le_add1 concat.simps(2))
    ultimately show False by simp
  qed
  with c ch have "chunks = [[0, 1, 8, 4, 16, 16]]" by simp
  with d show ?thesis by simp
qed

section \<open>The exact palette\<close>

text \<open>
  Claim C4. The quantised channels of a pixel are its channels masked with 0xF8, and the key
  determines them. For every frame with at most 256 distinct quantised keys: the colours of
  \<^verbatim>\<open>sortedColors\<close> are exactly the keys of the frame, each once; the count of an entry is
  the number of pixels with that key; the counts descend along the list; and every pixel is
  found in \<^verbatim>\<open>colorMap\<close> (the fast path), its index is the position of its own key in
  \<^verbatim>\<open>sortedColors\<close>, and the three palette bytes at that index are the pixel's quantised
  channels.
\<close>
theorem exact_palette:
  assumes "card (quantKey ` set pixels) \<le> 256"
  shows "(\<forall>px. quantR px = uint (red px AND 0xF8) \<and> quantG px = uint (green px AND 0xF8)
              \<and> quantB px = uint (blue px AND 0xF8)
              \<and> paletteEntry (quantKey px) = [quantR px, quantG px, quantB px])
    \<and> color_of ` set (sortedColors pixels) = quantKey ` set pixels
    \<and> distinct (map color_of (sortedColors pixels))
    \<and> (\<forall>e \<in> set (sortedColors pixels). count_of e = occurrences pixels (color_of e))
    \<and> (\<forall>i j. i \<le> j \<and> j < length (sortedColors pixels) \<longrightarrow>
           count_of (sortedColors pixels ! j) \<le> count_of (sortedColors pixels ! i))
    \<and> (\<forall>i < length pixels.
           colorMap pixels (quantKey (pixels ! i)) = Some (indexed pixels ! i)
           \<and> 0 \<le> indexed pixels ! i
           \<and> nat (indexed pixels ! i) < length (sortedColors pixels)
           \<and> color_of (sortedColors pixels ! nat (indexed pixels ! i)) = quantKey (pixels ! i)
           \<and> take 3 (drop (3 * nat (indexed pixels ! i)) (palette pixels))
               = [quantR (pixels ! i), quantG (pixels ! i), quantB (pixels ! i)])"
proof (intro conjI allI impI ballI)
  fix px
  show "quantR px = uint (red px AND 0xF8)" "quantG px = uint (green px AND 0xF8)"
    "quantB px = uint (blue px AND 0xF8)"
    by (rule quant_word)+
  show "paletteEntry (quantKey px) = [quantR px, quantG px, quantB px]"
    by (rule paletteEntry_quantKey)
next
  show "color_of ` set (sortedColors pixels) = quantKey ` set pixels"
    using assms by (rule sortedColors_exact)
  show "distinct (map color_of (sortedColors pixels))"
    by (rule sortedColors_distinct)
next
  fix e assume "e \<in> set (sortedColors pixels)"
  then show "count_of e = occurrences pixels (color_of e)"
    by (rule sortedColors_count)
next
  fix i j assume "i \<le> j \<and> j < length (sortedColors pixels)"
  then show "count_of (sortedColors pixels ! j) \<le> count_of (sortedColors pixels ! i)"
    using sortedColors_desc [of i j pixels] by simp
next
  fix i assume i: "i < length pixels"
  then have "quantKey (pixels ! i) \<in> color_of ` set (sortedColors pixels)"
    by (simp add: sortedColors_exact [OF assms])
  then obtain j where j: "j < length (sortedColors pixels)"
    "color_of (sortedColors pixels ! j) = quantKey (pixels ! i)"
    by (auto simp add: in_set_conv_nth)
  from colorMap_hit [OF j(1)] j(2) have cm: "colorMap pixels (quantKey (pixels ! i)) = Some (int j)"
    by simp
  with indexed_nth(1) [OF i] have ix: "indexed pixels ! i = int j"
    by (simp add: indexPixel_eq)
  show "colorMap pixels (quantKey (pixels ! i)) = Some (indexed pixels ! i)"
    by (simp add: cm ix)
  show "0 \<le> indexed pixels ! i" by (simp add: ix)
  show "nat (indexed pixels ! i) < length (sortedColors pixels)"
    using j(1) by (simp add: ix)
  show "color_of (sortedColors pixels ! nat (indexed pixels ! i)) = quantKey (pixels ! i)"
    using j(2) by (simp add: ix)
  show "take 3 (drop (3 * nat (indexed pixels ! i)) (palette pixels))
               = [quantR (pixels ! i), quantG (pixels ! i), quantB (pixels ! i)]"
    using palette_entry [OF j(1)] j(2) by (simp add: ix paletteEntry_quantKey)
qed

theorem exact_palette_witness:
  "card (quantKey ` set frame3) \<le> 256
   \<and> color_of ` set (sortedColors frame3) = quantKey ` set frame3
   \<and> frame3 ! 2 = RGBA 250 20 30 255
   \<and> take 3 (drop (3 * nat (indexed frame3 ! 2)) (palette frame3)) = [248, 16, 24]"
proof -
  have "card (quantKey ` set frame3) \<le> card (set frame3)"
    by (rule card_image_le) simp
  also have "\<dots> \<le> length frame3" by (rule card_length)
  also have "\<dots> \<le> 256" by (simp add: frame3_def)
  finally have h: "card (quantKey ` set frame3) \<le> 256" .
  have l: "2 < length frame3" by (simp add: frame3_def)
  have p: "frame3 ! 2 = RGBA 250 20 30 255" by (simp add: frame3_def)
  have q: "[quantR (frame3 ! 2), quantG (frame3 ! 2), quantB (frame3 ! 2)] = [248, 16, 24]"
    by (simp add: p quant_word)
  from exact_palette [OF h] l
  have "color_of ` set (sortedColors frame3) = quantKey ` set frame3"
    and "take 3 (drop (3 * nat (indexed frame3 ! 2)) (palette frame3))
           = [quantR (frame3 ! 2), quantG (frame3 ! 2), quantB (frame3 ! 2)]"
    by blast+
  with h p q show ?thesis by simp
qed

section \<open>Frames in ascending order of key\<close>

lemma quantKey_sum: "quantKey px = 65536 * quantR px + 256 * quantG px + quantB px"
proof -
  define r g b where "r = quantR px" and "g = quantG px" and "b = quantB px"
  have t: "take_bit 8 r = r" "take_bit 8 g = g" "take_bit 8 b = b"
    unfolding r_def g_def b_def by (rule quant_take_bit [symmetric])+
  have 1: "push_bit 8 g OR b = push_bit 8 g + b"
  proof (rule disjunctive_add [symmetric])
    fix n
    have "bit b n \<Longrightarrow> n < 8"
      by (subst (asm) t(3) [symmetric]) (simp add: bit_simps)
    then show "\<not> bit (push_bit 8 g) n \<or> \<not> bit b n"
      by (auto simp add: bit_simps)
  qed
  have 2: "push_bit 16 r OR (push_bit 8 g + b) = push_bit 16 r + (push_bit 8 g + b)"
  proof (rule disjunctive_add [symmetric])
    fix n
    have "bit (push_bit 8 g OR b) n \<Longrightarrow> n < 16"
      by (subst (asm) t(3) [symmetric], subst (asm) t(2) [symmetric]) (auto simp add: bit_simps)
    then show "\<not> bit (push_bit 16 r) n \<or> \<not> bit (push_bit 8 g + b) n"
      unfolding 1 [symmetric] by (auto simp add: bit_simps)
  qed
  have rb: "0 \<le> r" "r < 256" "0 \<le> g" "g < 256" "0 \<le> b" "b < 256"
    unfolding r_def g_def b_def by (rule quant_bounds)+
  have "quantKey px = take_bit 24 (push_bit 16 r + (push_bit 8 g + b))"
    unfolding quantKey_eq r_def [symmetric] g_def [symmetric] b_def [symmetric]
    by (simp only: 1 2)
  also have "push_bit 16 r + (push_bit 8 g + b) = 65536 * r + 256 * g + b"
    by (simp add: push_bit_eq_mult)
  also have "take_bit 24 (65536 * r + 256 * g + b) = 65536 * r + 256 * g + b"
  proof (rule take_bit_int_eq_self)
    show "0 \<le> 65536 * r + 256 * g + b" using rb by simp
    show "65536 * r + 256 * g + b < 2 ^ 24" using rb by simp
  qed
  finally show ?thesis by (simp only: r_def g_def b_def)
qed

lemma sqDist_quantKey:
  "sqDist r g b (quantKey px) =
     (r - quantR px) * (r - quantR px) + (g - quantG px) * (g - quantG px)
     + (b - quantB px) * (b - quantB px)"
  using paletteEntry_quantKey [of px] by (simp add: sqDist_def paletteEntry_def Let_def)

lemma bump_append: "\<forall>e \<in> set acc. fst e < k \<Longrightarrow> bump k acc = acc @ [(k, 1)]"
  by (induction k acc rule: bump.induct) auto

lemma fold_bump_sorted:
  "sorted_wrt (<) (map fst acc @ map quantKey pxs) \<Longrightarrow>
   fold (\<lambda>px. bump (quantKey px)) pxs acc = acc @ map (\<lambda>px. (quantKey px, 1)) pxs"
proof (induction pxs arbitrary: acc)
  case Nil
  show ?case by simp
next
  case (Cons px pxs)
  from Cons.prems have "\<forall>e \<in> set acc. fst e < quantKey px"
    by (auto simp add: sorted_wrt_append)
  then have b: "bump (quantKey px) acc = acc @ [(quantKey px, 1)]"
    by (rule bump_append)
  from Cons.prems have "sorted_wrt (<) (map fst (acc @ [(quantKey px, 1)]) @ map quantKey pxs)"
    by simp
  from Cons.IH [OF this] show ?case by (simp add: b)
qed

lemma sortedColors_ascending:
  assumes "sorted_wrt (<) (map quantKey pixels)"
  shows "sortedColors pixels = map (\<lambda>px. (quantKey px, 1)) (take 256 pixels)"
proof -
  have c: "countColors pixels = map (\<lambda>px. (quantKey px, 1)) pixels"
    unfolding countColors_def using fold_bump_sorted [of "[]" pixels] assms by simp
  have "sorted (map (\<lambda>e. - count_of e) (map (\<lambda>px. (quantKey px, 1)) pixels))"
    by (induction pixels) (simp_all add: count_of_def)
  then have "sort_key (\<lambda>e. - count_of e) (countColors pixels) = countColors pixels"
    unfolding c by (rule sort_key_id_if_sorted)
  then show ?thesis
    by (simp add: sortedColors_def c take_map)
qed

lemma quant_mk:
  assumes "n < 256"
  shows "quantR (mk n) = 0" "quantG (mk n) = 8 * (int n div 16)" "quantB (mk n) = 8 * (int n mod 16)"
proof -
  have a: "0 \<le> int n div 16" "int n div 16 < 16" using assms by simp_all
  have m: "0 \<le> int n mod 16" "int n mod 16 < 16" by simp_all
  have u: "8 * (uint (word_of_int (8 * k) :: 8 word) div 8) = 8 * k" if "0 \<le> k" "k < 16" for k :: int
  proof -
    have "uint (word_of_int (8 * k) :: 8 word) = (8 * k) mod 256"
      using uint_word_of_int [of "8 * k", where 'a = 8] by simp
    also have "(8 * k) mod 256 = 8 * k"
      using that by simp
    finally show ?thesis by simp
  qed
  show "quantR (mk n) = 0" by (simp add: quant_top5 mk_def)
  show "quantG (mk n) = 8 * (int n div 16)"
    using u [OF a] by (simp add: quant_top5 mk_def)
  show "quantB (mk n) = 8 * (int n mod 16)"
    using u [OF m] by (simp add: quant_top5 mk_def)
qed

lemma key_mk: "n < 256 \<Longrightarrow> quantKey (mk n) = keyf n"
  by (simp add: quantKey_sum quant_mk keyf_def)

lemma keyf_mono: "i < j \<Longrightarrow> keyf i < keyf j"
proof -
  assume ij: "i < j"
  define a r b s where "a = int i div 16" and "r = int i mod 16" and "b = int j div 16" and "s = int j mod 16"
  have i: "int i = 16 * a + r" and j: "int j = 16 * b + s"
    unfolding a_def r_def b_def s_def by simp_all
  have rs: "0 \<le> r" "r < 16" "0 \<le> s" "s < 16"
    unfolding r_def s_def by simp_all
  from ij have lt: "16 * a + r < 16 * b + s"
    unfolding i [symmetric] j [symmetric] by simp
  consider "a < b" | "a = b" | "b < a" by linarith
  then have "2048 * a + 8 * r < 2048 * b + 8 * s"
  proof cases
    case 1 with rs show ?thesis by linarith
  next
    case 2 with lt show ?thesis by simp
  next
    case 3 with rs lt show ?thesis by linarith
  qed
  then show ?thesis
    unfolding keyf_def a_def r_def b_def s_def .
qed

lemma keyf_bound: "n < 256 \<Longrightarrow> 0 \<le> keyf n \<and> keyf n < 524288"
proof -
  assume "n < 256"
  then have "int n div 16 < 16" "0 \<le> int n div 16" by simp_all
  moreover have "int n mod 16 < 16" "0 \<le> int n mod 16" by simp_all
  ultimately show ?thesis unfolding keyf_def by linarith
qed

lemma quant_last:
  "quantR (RGBA 8 7 7 255) = 8" "quantG (RGBA 8 7 7 255) = 0" "quantB (RGBA 8 7 7 255) = 0"
  "quantKey (RGBA 8 7 7 255) = 524288"
  by (simp_all add: quantKey_sum quant_word)

lemma keys_frame257: "map quantKey frame257 = map keyf [0..<256] @ [524288]"
  by (simp add: frame257_def quant_last key_mk)

lemma sorted_frame257: "sorted_wrt (<) (map quantKey frame257)"
proof -
  have "sorted_wrt (<) (map keyf [0..<256])"
    by (simp add: sorted_wrt_map) (rule sorted_wrt_mono_rel [OF _ sorted_wrt_upt], simp add: keyf_mono)
  moreover have "\<forall>k \<in> set (map keyf [0..<256]). k < 524288"
    using keyf_bound by auto
  ultimately show ?thesis
    unfolding keys_frame257 by (simp add: sorted_wrt_append)
qed

lemma sortedColors_frame257: "sortedColors frame257 = map (\<lambda>n. (keyf n, 1)) [0..<256]"
proof -
  have "take 256 frame257 = map mk [0..<256]"
    by (simp add: frame257_def)
  then show ?thesis
    by (simp add: sortedColors_ascending [OF sorted_frame257] key_mk)
qed

lemma frame257_last: "frame257 ! 256 = RGBA 8 7 7 255" "length frame257 = 257"
  by (simp_all add: frame257_def nth_append)

lemma miss_frame257: "colorMap frame257 (quantKey (frame257 ! 256)) = None"
proof (rule colorMap_miss)
  have "524288 \<notin> keyf ` {0..<256}"
    using keyf_bound by fastforce
  then show "quantKey (frame257 ! 256) \<notin> color_of ` set (sortedColors frame257)"
    by (simp add: frame257_last quant_last sortedColors_frame257 image_image color_of_def)
qed

lemma sqDist_keyf:
  "n < 256 \<Longrightarrow> sqDist r g b (keyf n) =
     r * r + (g - 8 * (int n div 16)) * (g - 8 * (int n div 16))
     + (b - 8 * (int n mod 16)) * (b - 8 * (int n mod 16))"
  using sqDist_quantKey [of r g b "mk n"] by (simp add: key_mk quant_mk)

lemma best_unique: "best_at r g b cols i \<Longrightarrow> best_at r g b cols j \<Longrightarrow> i = j"
proof (rule ccontr)
  assume a: "best_at r g b cols i" "best_at r g b cols j" and "i \<noteq> j"
  then consider "i < j" | "j < i" by linarith
  then show False
  proof cases
    case 1
    with a have "sqDist r g b (color_of (cols ! j)) < sqDist r g b (color_of (cols ! i))"
      "sqDist r g b (color_of (cols ! i)) \<le> sqDist r g b (color_of (cols ! j))"
      by (simp_all add: best_at_def)
    then show False by simp
  next
    case 2
    with a have "sqDist r g b (color_of (cols ! i)) < sqDist r g b (color_of (cols ! j))"
      "sqDist r g b (color_of (cols ! j)) \<le> sqDist r g b (color_of (cols ! i))"
      by (simp_all add: best_at_def)
    then show False by simp
  qed
qed

lemma index_frame257: "indexed frame257 ! 256 = 0"
proof -
  let ?cols = "sortedColors frame257"
  have ne: "?cols \<noteq> []" by (simp add: sortedColors_frame257)
  have "best_at 8 0 0 ?cols 0"
    unfolding best_at_def
  proof (intro conjI allI impI)
    show "0 < length ?cols" by (simp add: sortedColors_frame257)
    fix k assume "k < length ?cols"
    then have k: "k < 256" by (simp add: sortedColors_frame257)
    have "0 \<le> (8 * (int k div 16)) * (8 * (int k div 16))" "0 \<le> (8 * (int k mod 16)) * (8 * (int k mod 16))"
      by simp_all
    then have "(64::int) \<le> 64 + (8 * (int k div 16)) * (8 * (int k div 16)) + (8 * (int k mod 16)) * (8 * (int k mod 16))"
      by linarith
    then show "sqDist 8 0 0 (color_of (?cols ! 0)) \<le> sqDist 8 0 0 (color_of (?cols ! k))"
      using k by (simp add: sortedColors_frame257 color_of_def sqDist_keyf)
  qed simp
  with closest_best [OF ne, of 8 0 0] have "nat (closest 8 0 0 ?cols) = 0" "0 \<le> closest 8 0 0 ?cols"
    by (auto dest: best_unique)
  then have "closest 8 0 0 ?cols = 0" by simp
  then have "indexPixel ?cols (colorMap frame257) (frame257 ! 256) = 0"
    using miss_frame257 by (simp add: indexPixel_eq frame257_last quant_last)
  then show ?thesis
    using indexed_nth(1) [of 256 frame257] by (simp add: frame257_last)
qed

section \<open>The closest colour\<close>

text \<open>
  Claim C3 as it is stated does not hold. In \<open>frame257\<close> the last pixel, (8, 7, 7), has the
  largest of 257 keys, all of count one, so its key is dropped and the pixel takes the slow path.
  The search runs on the masked channels (8, 0, 0) and returns index 0, the colour (0, 0, 0),
  whose squared distance from the original pixel is 162, while the palette colour (0, 8, 8) at
  index 17 is at squared distance 66 from it.
\<close>
theorem closest_original_counterexample:
  "colorMap frame257 (quantKey (frame257 ! 256)) = None
   \<and> indexed frame257 ! 256 = 0
   \<and> 17 < length (sortedColors frame257)
   \<and> origDist (frame257 ! 256) (color_of (sortedColors frame257 ! nat (indexed frame257 ! 256))) = 162
   \<and> origDist (frame257 ! 256) (color_of (sortedColors frame257 ! 17)) = 66
   \<and> \<not> origDist (frame257 ! 256) (color_of (sortedColors frame257 ! nat (indexed frame257 ! 256)))
        \<le> origDist (frame257 ! 256) (color_of (sortedColors frame257 ! 17))"
proof -
  have a: "origDist (frame257 ! 256) (color_of (sortedColors frame257 ! 0)) = 162"
    by (simp add: origDist_def frame257_last sortedColors_frame257 color_of_def sqDist_keyf)
  have b: "origDist (frame257 ! 256) (color_of (sortedColors frame257 ! 17)) = 66"
    by (simp add: origDist_def frame257_last sortedColors_frame257 color_of_def sqDist_keyf)
  have c: "17 < length (sortedColors frame257)"
    by (simp add: sortedColors_frame257)
  from a b c miss_frame257 show ?thesis
    by (simp add: index_frame257)
qed

text \<open>
  Claim C3, amended. For every frame and every pixel of it, the index chosen is at least 0 and
  below the number of palette entries, which is at most 256. When the quantised key of the pixel
  is not in \<^verbatim>\<open>colorMap\<close>, the index chosen is one minimising the squared Euclidean RGB
  distance between the palette entry and the quantised (masked with 0xF8) channels of the pixel.
\<close>
theorem closest_quantised:
  assumes "i < length pixels"
  shows "0 \<le> indexed pixels ! i
    \<and> nat (indexed pixels ! i) < length (sortedColors pixels)
    \<and> length (sortedColors pixels) \<le> 256
    \<and> (colorMap pixels (quantKey (pixels ! i)) = None \<longrightarrow>
         (\<forall>k < length (sortedColors pixels).
            sqDist (quantR (pixels ! i)) (quantG (pixels ! i)) (quantB (pixels ! i))
              (color_of (sortedColors pixels ! nat (indexed pixels ! i)))
            \<le> sqDist (quantR (pixels ! i)) (quantG (pixels ! i)) (quantB (pixels ! i))
              (color_of (sortedColors pixels ! k))))
    \<and> (\<forall>r g b c. sqDist r g b c =
           (r - paletteEntry c ! 0) * (r - paletteEntry c ! 0)
         + (g - paletteEntry c ! 1) * (g - paletteEntry c ! 1)
         + (b - paletteEntry c ! 2) * (b - paletteEntry c ! 2))"
proof (intro conjI impI allI)
  from indexed_nth(2,3) [OF assms]
  show "0 \<le> indexed pixels ! i" "nat (indexed pixels ! i) < length (sortedColors pixels)"
    by linarith+
  show "length (sortedColors pixels) \<le> 256" by (rule sortedColors_length)
next
  fix k
  assume miss: "colorMap pixels (quantKey (pixels ! i)) = None" and k: "k < length (sortedColors pixels)"
  from assms have "pixels \<noteq> []" by auto
  from closest_best [OF sortedColors_nonempty [OF this],
      of "quantR (pixels ! i)" "quantG (pixels ! i)" "quantB (pixels ! i)"]
  have "best_at (quantR (pixels ! i)) (quantG (pixels ! i)) (quantB (pixels ! i)) (sortedColors pixels)
          (nat (closest (quantR (pixels ! i)) (quantG (pixels ! i)) (quantB (pixels ! i)) (sortedColors pixels)))"
    by simp
  moreover have "indexed pixels ! i =
      closest (quantR (pixels ! i)) (quantG (pixels ! i)) (quantB (pixels ! i)) (sortedColors pixels)"
    using indexed_nth(1) [OF assms] miss by (simp add: indexPixel_eq)
  ultimately show "sqDist (quantR (pixels ! i)) (quantG (pixels ! i)) (quantB (pixels ! i))
              (color_of (sortedColors pixels ! nat (indexed pixels ! i)))
            \<le> sqDist (quantR (pixels ! i)) (quantG (pixels ! i)) (quantB (pixels ! i))
              (color_of (sortedColors pixels ! k))"
    using k by (simp add: best_at_def)
next
  fix r g b c
  show "sqDist r g b c =
           (r - paletteEntry c ! 0) * (r - paletteEntry c ! 0)
         + (g - paletteEntry c ! 1) * (g - paletteEntry c ! 1)
         + (b - paletteEntry c ! 2) * (b - paletteEntry c ! 2)"
    by (simp add: sqDist_def paletteEntry_def Let_def)
qed

theorem closest_quantised_witness:
  "256 < length frame257
   \<and> colorMap frame257 (quantKey (frame257 ! 256)) = None
   \<and> 0 \<le> indexed frame257 ! 256
   \<and> nat (indexed frame257 ! 256) < length (sortedColors frame257)
   \<and> sqDist (quantR (frame257 ! 256)) (quantG (frame257 ! 256)) (quantB (frame257 ! 256))
        (color_of (sortedColors frame257 ! nat (indexed frame257 ! 256)))
      \<le> sqDist (quantR (frame257 ! 256)) (quantG (frame257 ! 256)) (quantB (frame257 ! 256))
        (color_of (sortedColors frame257 ! 17))"
proof -
  have l: "256 < length frame257" by (simp add: frame257_last)
  have k: "17 < length (sortedColors frame257)" by (simp add: sortedColors_frame257)
  from closest_quantised [OF l] miss_frame257 k l show ?thesis
    by blast
qed

section \<open>Index planes without a repeated pair\<close>

lemma inv_width: "lzw_inv s \<Longrightarrow> codeSize s = widthFor (nextCode s)"
  unfolding lzw_inv_def widthFor_def by auto

lemma zip_snoc:
  "zip (p # rest @ [c]) (rest @ [c]) = zip (p # rest) rest @ [(last (p # rest), c)]"
  by (induction rest arbitrary: p) simp_all

lemma fresh_run:
  assumes "distinct (zip (p # rest) rest)" "length rest \<le> 3838"
  shows "prev (fold lzwStep rest ((emit clearCode lzwInit)\<lparr>prev := p\<rparr>)) = last (p # rest)
    \<and> nextCode (fold lzwStep rest ((emit clearCode lzwInit)\<lparr>prev := p\<rparr>)) = 258 + int (length rest)
    \<and> dom (dict (fold lzwStep rest ((emit clearCode lzwInit)\<lparr>prev := p\<rparr>))) \<subseteq> set (zip (p # rest) rest)
    \<and> emitted (fold lzwStep rest ((emit clearCode lzwInit)\<lparr>prev := p\<rparr>)) =
        (256, 9) # map (\<lambda>i. ((p # rest) ! i, widthFor (258 + int i))) [0..<length rest]"
  using assms
proof (induction rest rule: rev_induct)
  case Nil
  show ?case
    by (simp add: emit_fields lzwInit_def clearCode_def)
next
  case (snoc c rest)
  define s where "s = fold lzwStep rest ((emit clearCode lzwInit)\<lparr>prev := p\<rparr>)"
  have z: "zip (p # rest @ [c]) (rest @ [c]) = zip (p # rest) rest @ [(last (p # rest), c)]"
    by (rule zip_snoc)
  from snoc.prems(1) have "distinct (zip (p # rest) rest @ [(last (p # rest), c)])"
    by (simp only: z)
  then have d: "distinct (zip (p # rest) rest)"
    and nin: "(last (p # rest), c) \<notin> set (zip (p # rest) rest)"
    by (simp_all del: last.simps)
  from snoc.prems(2) have l: "length rest \<le> 3838" and l': "length rest < 3838" by simp_all
  from snoc.IH [OF d l] have ih:
    "prev s = last (p # rest)" "nextCode s = 258 + int (length rest)"
    "dom (dict s) \<subseteq> set (zip (p # rest) rest)"
    "emitted s = (256, 9) # map (\<lambda>i. ((p # rest) ! i, widthFor (258 + int i))) [0..<length rest]"
    unfolding s_def by simp_all
  have inv: "lzw_inv s"
    unfolding s_def by (intro lzw_inv_fold lzw_inv_init)
  have miss: "dict s (prev s, c) = None"
    using ih(1,3) nin by (auto simp add: domIff)
  have room: "nextCode s < 4096"
    using ih(2) l' by simp
  note st = lzwStep_miss_room [OF inv miss room]
  have f: "fold lzwStep (rest @ [c]) ((emit clearCode lzwInit)\<lparr>prev := p\<rparr>) = lzwStep c s"
    by (simp add: s_def)
  have nth: "(p # rest @ [c]) ! length rest = last (p # rest)"
    by (metis append_Cons last_conv_nth length_Cons list.distinct(1) diff_Suc_1 nth_append
        lessI length_append_singleton)
  have m: "map (\<lambda>i. ((p # rest @ [c]) ! i, widthFor (258 + int i))) [0..<length rest]
      = map (\<lambda>i. ((p # rest) ! i, widthFor (258 + int i))) [0..<length rest]"
    by (rule map_cong) (auto simp add: nth_append nth_Cons')
  show ?case
    unfolding f
  proof (intro conjI)
    show "prev (lzwStep c s) = last (p # rest @ [c])"
      by (simp add: st)
    show "nextCode (lzwStep c s) = 258 + int (length (rest @ [c]))"
      by (simp add: st ih)
    show "dom (dict (lzwStep c s)) \<subseteq> set (zip (p # rest @ [c]) (rest @ [c]))"
      unfolding z using ih(1,3) by (auto simp add: st)
    show "emitted (lzwStep c s) =
        (256, 9) # map (\<lambda>i. ((p # rest @ [c]) ! i, widthFor (258 + int i))) [0..<length (rest @ [c])]"
      using m nth ih by (simp add: st inv_width [OF inv])
  qed
qed

lemma fresh_pairs_inj:
  assumes "i < 32767" "j < 32767" "fresh i = fresh j" "fresh (Suc i) = fresh (Suc j)"
  shows "i = j"
proof -
  define a b where "a = i div 2" and "b = j div 2"
  have ab: "a div 128 < 128" "b div 128 < 128"
    using assms(1,2) unfolding a_def b_def by simp_all
  have par: "even i \<longleftrightarrow> even j"
  proof (rule ccontr)
    assume "\<not> (even i \<longleftrightarrow> even j)"
    then consider "even i" "odd j" | "odd i" "even j" by blast
    then show False
      using assms(3) ab unfolding fresh_def a_def b_def by cases simp_all
  qed
  show ?thesis
  proof (cases "even i")
    case True
    with par have ej: "even j" by simp
    from True ej assms(3,4) have "a div 128 = b div 128" "a mod 128 = b mod 128"
      unfolding fresh_def a_def b_def by simp_all
    then have "a = b" by (metis div_mult_mod_eq)
    moreover from True ej have "i = 2 * a" "j = 2 * b"
      unfolding a_def b_def by simp_all
    ultimately show ?thesis by simp
  next
    case False
    with par have oj: "odd j" by simp
    from False oj have s: "Suc i div 2 = Suc a" "Suc j div 2 = Suc b"
      unfolding a_def b_def by simp_all
    from False oj assms(3,4) have e: "a mod 128 = b mod 128" "Suc a div 128 = Suc b div 128"
      unfolding fresh_def s by (simp_all add: a_def b_def)
    from e(1) have "Suc a mod 128 = Suc b mod 128"
      by (metis mod_Suc_eq)
    with e(2) have "Suc a = Suc b" by (metis div_mult_mod_eq)
    moreover from False oj have "i = 2 * a + 1" "j = 2 * b + 1"
      unfolding a_def b_def by simp_all
    ultimately show ?thesis by simp
  qed
qed

lemma zip_fresh: "zip (freshStream (Suc n)) (tl (freshStream (Suc n))) = map (\<lambda>i. (fresh i, fresh (Suc i))) [0..<n]"
proof (rule nth_equalityI)
  show "length (zip (freshStream (Suc n)) (tl (freshStream (Suc n)))) = length (map (\<lambda>i. (fresh i, fresh (Suc i))) [0..<n])"
    by (simp add: freshStream_def)
  fix i assume "i < length (zip (freshStream (Suc n)) (tl (freshStream (Suc n))))"
  then have i: "i < n" by (simp add: freshStream_def)
  then have "freshStream (Suc n) ! i = fresh i" "tl (freshStream (Suc n)) ! i = fresh (Suc i)"
    unfolding freshStream_def by (simp_all add: nth_tl del: upt_Suc)
  with i show "zip (freshStream (Suc n)) (tl (freshStream (Suc n))) ! i = map (\<lambda>i. (fresh i, fresh (Suc i))) [0..<n] ! i"
    by (simp add: freshStream_def del: upt_Suc)
qed

lemma fresh_distinct:
  assumes "n \<le> 32767"
  shows "distinct (zip (freshStream (Suc n)) (tl (freshStream (Suc n))))"
proof -
  have "inj_on (\<lambda>i. (fresh i, fresh (Suc i))) (set [0..<n])"
    using assms by (intro inj_onI) (auto intro: fresh_pairs_inj)
  then show ?thesis
    unfolding zip_fresh by (simp add: distinct_map)
qed

lemma freshStream_Cons: "freshStream (Suc n) = fresh 0 # tl (freshStream (Suc n))"
  by (simp add: freshStream_def upt_conv_Cons del: upt_Suc)

lemma freshStream_tl_length: "length (tl (freshStream (Suc n))) = n"
  by (simp add: freshStream_def)

lemma lzwLoop_Cons: "lzwLoop (p # rest) = fold lzwStep rest ((emit clearCode lzwInit)\<lparr>prev := p\<rparr>)"
  by (simp add: lzwLoop_def)

lemma lzwLoop_snoc: "lzwLoop (p # rest @ [c]) = lzwStep c (lzwLoop (p # rest))"
  by (simp add: lzwLoop_def)

lemma widths_511:
  "map (\<lambda>i. if 258 + int i \<le> 512 then (9::int) else 10) [0..<511] = replicate 255 9 @ replicate 256 10"
proof -
  have s: "[0..<511] = [0..<255] @ [255..<255 + 256]"
    using upt_add_eq_append [of 0 255 256] by simp
  have a: "map (\<lambda>i. if 258 + int i \<le> 512 then (9::int) else 10) [0..<255] = map (\<lambda>i. 9) [0..<255]"
    by (rule map_cong) auto
  have b: "map (\<lambda>i. if 258 + int i \<le> 512 then (9::int) else 10) [255..<255 + 256] = map (\<lambda>i. 10) [255..<255 + 256]"
    by (rule map_cong) auto
  show ?thesis
    unfolding s map_append a b map_replicate_const length_upt by simp
qed

lemma fresh_511:
  assumes "distinct (zip (r # rest) rest)" "length rest = 511"
  shows "nextCode (lzwLoop (r # rest)) = 769"
    and "emitted (lzwLoop (r # rest)) =
          (256, 9) # map (\<lambda>i. ((r # rest) ! i, if 258 + int i \<le> 512 then 9 else 10)) [0..<511]"
    and "map snd (emitted (lzwCompress (r # rest))) = replicate 256 9 @ replicate 258 10"
proof -
  from assms(2) have l: "length rest \<le> 3838" by simp
  note fr = fresh_run [OF assms(1) l, folded lzwLoop_Cons, unfolded assms(2)]
  from fr show n: "nextCode (lzwLoop (r # rest)) = 769" by simp
  have m: "map (\<lambda>i. ((r # rest) ! i, widthFor (258 + int i))) [0..<511]
       = map (\<lambda>i. ((r # rest) ! i, if 258 + int i \<le> 512 then 9 else 10)) [0..<511]"
    by (rule map_cong) (auto simp add: widthFor_def)
  from fr show e: "emitted (lzwLoop (r # rest)) =
          (256, 9) # map (\<lambda>i. ((r # rest) ! i, if 258 + int i \<le> 512 then 9 else 10)) [0..<511]"
    by (simp only: m)
  have c: "codeSize (lzwLoop (r # rest)) = 10"
    using inv_width [OF lzw_inv_loop, of "r # rest"] by (simp add: n widthFor_def)
  have "map snd (emitted (lzwCompress (r # rest))) =
      9 # map (\<lambda>i. if 258 + int i \<le> 512 then (9::int) else 10) [0..<511] @ [10, 10]"
    by (simp add: emitted_compress e c comp_def)
  also have "\<dots> = (9 # replicate 255 9) @ (replicate 256 10 @ replicate 2 10)"
    by (simp only: widths_511) (simp add: numeral_2_eq_2)
  also have "9 # replicate 255 (9::int) = replicate 256 9"
    using replicate_Suc [of 255 "9::int"] by simp
  also have "replicate 256 (10::int) @ replicate 2 10 = replicate 258 10"
    by (simp flip: replicate_add)
  finally show "map snd (emitted (lzwCompress (r # rest))) = replicate 256 9 @ replicate 258 10" .
qed




section \<open>The packed bit stream\<close>

text \<open>
  The bytes that \<^verbatim>\<open>emit\<close> pushes to \<^verbatim>\<open>output\<close> hold, bit by bit, the codes it was called with,
  each with the width \<^verbatim>\<open>codeSize\<close> had at the call. The 32-bit operations on \<^verbatim>\<open>buffer\<close> lose
  nothing: at most 7 bits are pending when a code of at most 12 bits is added.
\<close>

lemma bitsOf_length: "length (bitsOf v w) = w"
  by (simp add: bitsOf_def)

lemma bitsOf_add: "bitsOf v (m + n) = bitsOf v m @ bitsOf (drop_bit m v) n"
  by (rule nth_equalityI) (auto simp add: bitsOf_def nth_append bit_drop_bit_eq)

lemma bitsOf_cong: "(\<And>i. i < w \<Longrightarrow> bit a i = bit b i) \<Longrightarrow> bitsOf a w = bitsOf b w"
  by (simp add: bitsOf_def)

lemma bitsOf_zero: "bitsOf 0 k = replicate k False"
  by (rule nth_equalityI) (simp_all add: bitsOf_def)

lemma bitsOf_pad: "take_bit m v = v \<Longrightarrow> bitsOf v (m + k) = bitsOf v m @ replicate k False"
proof -
  assume t: "take_bit m v = v"
  have "drop_bit m v = drop_bit m (take_bit m v)" by (simp only: t)
  also have "\<dots> = 0" by (simp add: drop_bit_take_bit)
  finally show ?thesis by (simp add: bitsOf_add bitsOf_zero)
qed

lemma byteBits_snoc: "byteBits (bs @ [b]) = byteBits bs @ bitsOf b 8"
  by (simp add: byteBits_def)

lemma codeBits_snoc: "codeBits (tr @ [(c, w)]) = codeBits tr @ bitsOf c (nat w)"
  by (simp add: codeBits_def)

lemma ToInt32_small: "take_bit 24 x = x \<Longrightarrow> ToInt32 x = x"
  using ToInt32_take_bit [of x] by simp

lemma take_bit_widen: "take_bit m x = x \<Longrightarrow> m \<le> n \<Longrightarrow> take_bit n (x::int) = x"
  by (metis take_bit_take_bit min.absorb1 min.commute)

lemma drain_pack:
  assumes "0 \<le> bufferLen s" "bufferLen s \<le> 24" "take_bit (nat (bufferLen s)) (buffer s) = buffer s"
  shows "0 \<le> bufferLen (drain s) \<and> bufferLen (drain s) < 8
     \<and> take_bit (nat (bufferLen (drain s))) (buffer (drain s)) = buffer (drain s)
     \<and> byteBits (output_bytes (drain s)) @ bitsOf (buffer (drain s)) (nat (bufferLen (drain s)))
         = byteBits (output_bytes s) @ bitsOf (buffer s) (nat (bufferLen s))"
  using assms
proof (induction s rule: drain.induct)
  case (1 s)
  show ?case
  proof (cases "8 \<le> bufferLen s")
    case False
    with "1.prems" show ?thesis
      by (simp add: drain.simps [of s])
  next
    case True
    define n where "n = nat (bufferLen s) - 8"
    have bl: "nat (bufferLen s) = 8 + n" using True by (simp add: n_def)
    define s' where "s' = s\<lparr>output_bytes := output_bytes s @ [js_and (buffer s) 0xFF],
                    buffer := js_shr (buffer s) 8, bufferLen := bufferLen s - 8\<rparr>"
    have d: "drain s = drain s'"
      using True by (simp add: drain.simps [of s] s'_def)
    have t24: "take_bit 24 (buffer s) = buffer s"
    proof (rule take_bit_widen [of "nat (bufferLen s)"])
      show "take_bit (nat (bufferLen s)) (buffer s) = buffer s" by (rule "1.prems"(3))
      show "nat (bufferLen s) \<le> 24" using "1.prems"(2) by simp
    qed
    have shr: "js_shr (buffer s) 8 = drop_bit 8 (buffer s)"
      by (simp add: js_shr_def ToInt32_small [OF t24])
    have tb: "take_bit n (drop_bit 8 (buffer s)) = drop_bit 8 (buffer s)"
    proof -
      have "take_bit n (drop_bit 8 (buffer s)) = drop_bit 8 (take_bit (8 + n) (buffer s))"
        by (simp add: take_bit_drop_bit add.commute)
      then show ?thesis using "1.prems"(3) by (simp only: bl)
    qed
    have nn: "nat (bufferLen s - 8) = n"
      using True unfolding n_def by linarith
    have p: "0 \<le> bufferLen s'" "bufferLen s' \<le> 24"
      "take_bit (nat (bufferLen s')) (buffer s') = buffer s'"
      using True "1.prems"(2) tb by (simp_all add: s'_def shr nn)
    have low: "bitsOf (js_and (buffer s) 0xFF) 8 = bitsOf (buffer s) 8"
      by (rule bitsOf_cong) (simp add: js_and_255 bit_take_bit_iff flip: take_bit_eq_mod [of 8, simplified])
    have bits: "byteBits (output_bytes s') @ bitsOf (buffer s') (nat (bufferLen s'))
        = byteBits (output_bytes s) @ bitsOf (buffer s) (nat (bufferLen s))"
    proof -
      have "nat (bufferLen s') = n" by (simp add: s'_def nn)
      then show ?thesis
        by (simp add: s'_def byteBits_snoc low shr bl bitsOf_add)
    qed
    from "1.IH" [OF True, folded s'_def, OF p] show ?thesis
      unfolding d bits .
  qed
qed

lemma drop_bit_self: "take_bit m v = v \<Longrightarrow> drop_bit m (v::int) = 0"
proof -
  assume t: "take_bit m v = v"
  have "drop_bit m v = drop_bit m (take_bit m v)" by (simp only: t)
  also have "\<dots> = 0" by (simp add: drop_bit_take_bit)
  finally show ?thesis .
qed

lemma emit_pack:
  assumes "pack_inv s" "9 \<le> codeSize s" "codeSize s \<le> 12" "take_bit (nat (codeSize s)) c = c"
  shows "pack_inv (emit c s)"
proof -
  define n where "n = nat (bufferLen s)"
  define w where "w = nat (codeSize s)"
  from assms(1) have bl: "0 \<le> bufferLen s" "bufferLen s < 8"
    and tb: "take_bit n (buffer s) = buffer s"
    and eq: "byteBits (output_bytes s) @ bitsOf (buffer s) n = codeBits (emitted s)"
    unfolding pack_inv_def n_def by simp_all
  have n8: "n < 8" using bl by (simp add: n_def)
  have w12: "w \<le> 12" using assms(3) by (simp add: w_def)
  have tc: "take_bit w c = c" using assms(4) by (simp add: w_def)
  have c24: "take_bit 24 c = c"
    using tc by (rule take_bit_widen) (use w12 in simp)
  have b24: "take_bit 24 (buffer s) = buffer s"
    using tb by (rule take_bit_widen) (use n8 in simp)
  have pc: "take_bit (n + w) (push_bit n c) = push_bit n c"
    using push_bit_take_bit [of n w c] by (simp add: tc)
  have p24: "take_bit 24 (push_bit n c) = push_bit n c"
    using pc by (rule take_bit_widen) (use n8 w12 in simp)
  have nm: "nat (bufferLen s mod 32) = n"
    using bl by (simp add: n_def)
  have shl: "js_shl c (bufferLen s) = push_bit n c"
    by (simp add: js_shl_def nm ToInt32_small [OF c24] ToInt32_small [OF p24])
  define B where "B = buffer s OR push_bit n c"
  have or: "js_or (buffer s) (js_shl c (bufferLen s)) = B"
    by (simp add: js_or_def shl ToInt32_small [OF b24] ToInt32_small [OF p24] B_def)
  have bw: "take_bit (n + w) (buffer s) = buffer s"
    using tb by (rule take_bit_widen) simp
  have tB: "take_bit (n + w) B = B"
    unfolding B_def by (simp add: take_bit_or bw pc)
  have lowB: "bitsOf B n = bitsOf (buffer s) n"
    by (rule bitsOf_cong) (simp add: B_def bit_or_iff bit_push_bit_iff)
  have "drop_bit n B = drop_bit n (buffer s) OR drop_bit n (push_bit n c)"
    unfolding B_def by (rule bit_eqI) (simp add: bit_simps)
  then have dB: "drop_bit n B = c"
    by (simp add: drop_bit_self [OF tb] drop_bit_push_bit)
  have bitsB: "bitsOf B (n + w) = bitsOf (buffer s) n @ bitsOf c w"
    by (simp add: bitsOf_add lowB dB)
  define t where "t = s\<lparr>buffer := js_or (buffer s) (js_shl c (bufferLen s)),
               bufferLen := bufferLen s + codeSize s,
               emitted := emitted s @ [(c, codeSize s)]\<rparr>"
  have e: "emit c s = drain t" by (simp add: emit_def t_def)
  have nt: "nat (bufferLen t) = n + w"
    using bl assms(2) by (simp add: t_def n_def w_def nat_add_distrib)
  have pt: "0 \<le> bufferLen t" "bufferLen t \<le> 24" "take_bit (nat (bufferLen t)) (buffer t) = buffer t"
    using bl assms(2,3) tB by (simp_all add: nt) (simp_all add: t_def or)
  have bt: "byteBits (output_bytes t) @ bitsOf (buffer t) (nat (bufferLen t)) = codeBits (emitted t)"
    unfolding nt by (simp add: t_def or bitsB codeBits_snoc w_def [symmetric] eq [symmetric])
  from drain_pack [OF pt] bt drain_fields [of t] show ?thesis
    unfolding e pack_inv_def by simp
qed

lemma lzw_inv_size: "lzw_inv s \<Longrightarrow> 9 \<le> codeSize s \<and> codeSize s \<le> 12 \<and> 258 \<le> nextCode s"
  unfolding lzw_inv_def by auto

lemma lzw_inv_bits:
  assumes "lzw_inv s" "0 \<le> v" "v < nextCode s"
  shows "take_bit (nat (codeSize s)) v = v"
proof -
  from assms(1) consider "codeSize s = 9" "nextCode s \<le> 512" | "codeSize s = 10" "nextCode s \<le> 1024"
    | "codeSize s = 11" "nextCode s \<le> 2048" | "codeSize s = 12" "nextCode s \<le> 4096"
    unfolding lzw_inv_def by auto
  then show ?thesis
  proof cases
    case 1 with assms(2,3) show ?thesis by (intro take_bit_int_eq_self) simp_all
  next
    case 2 with assms(2,3) show ?thesis by (intro take_bit_int_eq_self) simp_all
  next
    case 3 with assms(2,3) show ?thesis by (intro take_bit_int_eq_self) simp_all
  next
    case 4 with assms(2,3) show ?thesis by (intro take_bit_int_eq_self) simp_all
  qed
qed

lemma pack_inv_fields:
  "pack_inv (s\<lparr>prev := p\<rparr>) = pack_inv s"
  "pack_inv (register key s) = pack_inv s"
  "pack_inv (s\<lparr>dict := d, codeSize := cs, nextCode := nc\<rparr>) = pack_inv s"
  by (simp_all add: pack_inv_def register_def Let_def)

lemma emit_run:
  assumes "lzw_inv s" "pack_inv s" "0 \<le> c" "c < nextCode s"
  shows "pack_inv (emit c s)"
  using assms lzw_inv_size [OF assms(1)] lzw_inv_bits [OF assms(1,3,4)]
  by (intro emit_pack) simp_all

lemma run_inv_step:
  assumes "run_inv s" "0 \<le> c" "c < 256"
  shows "run_inv (lzwStep c s)"
proof (cases "dict s (prev s, c)")
  case (Some code)
  with assms(1) show ?thesis
    unfolding run_inv_def by (simp add: lzwStep_hit lzw_inv_prev pack_inv_fields)
next
  case None
  from assms(1) have inv: "lzw_inv s" and pk: "pack_inv s" and pv: "0 \<le> prev s" "prev s < nextCode s"
    and dc: "\<forall>k v. dict s k = Some v \<longrightarrow> 0 \<le> v \<and> v < nextCode s"
    unfolding run_inv_def by simp_all
  define s1 where "s1 = emit (prev s) s"
  have pk1: "pack_inv s1" unfolding s1_def using inv pk pv by (rule emit_run)
  have inv1: "lzw_inv s1" unfolding s1_def by (simp add: lzw_inv_emit inv)
  have f1: "nextCode s1 = nextCode s" "dict s1 = dict s"
    unfolding s1_def by (simp_all add: emit_fields)
  have big: "258 \<le> nextCode s" using lzw_inv_size [OF inv] by simp
  show ?thesis
  proof (cases "nextCode s < 4096")
    case True
    then have room: "nextCode s1 < 4096" by (simp add: f1)
    have st: "lzwStep c s = (register (prev s, c) s1)\<lparr>prev := c\<rparr>"
      using None True by (simp add: lzwStep_def Let_def s1_def f1 emit_fields)
    note rf = register_fields [OF inv1 room, of "(prev s, c)"]
    have d': "\<forall>k v. dict (register (prev s, c) s1) k = Some v \<longrightarrow> 0 \<le> v \<and> v < nextCode s + 1"
    proof (intro allI impI)
      fix k v assume "dict (register (prev s, c) s1) k = Some v"
      then have "v = nextCode s \<or> dict s k = Some v"
        unfolding rf(1) f1 by (simp split: if_splits)
      then show "0 \<le> v \<and> v < nextCode s + 1"
      proof
        assume "v = nextCode s" with big show ?thesis by simp
      next
        assume "dict s k = Some v"
        with dc have "0 \<le> v \<and> v < nextCode s" by blast
        then show ?thesis by simp
      qed
    qed
    have "lzw_inv (register (prev s, c) s1)" by (rule rf)
    moreover have "pack_inv (register (prev s, c) s1)" by (simp add: pack_inv_fields pk1)
    moreover have "nextCode (register (prev s, c) s1) = nextCode s + 1" by (simp add: rf f1)
    ultimately show ?thesis
      unfolding st run_inv_def using d' big assms(2,3)
      by (simp add: lzw_inv_prev pack_inv_fields)
  next
    case False
    have st: "lzwStep c s = (reset s1)\<lparr>prev := c\<rparr>"
      using None False by (simp add: lzwStep_def Let_def s1_def f1 emit_fields)
    have "pack_inv (emit clearCode s1)"
      using inv1 pk1 big by (intro emit_run) (simp_all add: clearCode_def f1)
    then have "pack_inv (reset s1)"
      by (simp add: reset_def pack_inv_fields)
    then show ?thesis
      unfolding st run_inv_def using assms(2,3)
      by (simp add: lzw_inv_prev pack_inv_fields reset_fields)
  qed
qed

lemma run_inv_fold:
  "run_inv s \<Longrightarrow> \<forall>c \<in> set cs. 0 \<le> c \<and> c < 256 \<Longrightarrow> run_inv (fold lzwStep cs s)"
  by (induction cs arbitrary: s) (simp_all add: run_inv_step)

lemma pack_inv_init: "pack_inv lzwInit"
  by (simp add: pack_inv_def lzwInit_def byteBits_def codeBits_def bitsOf_def)

lemma run_inv_init:
  assumes "0 \<le> p" "p < 256"
  shows "run_inv ((emit clearCode lzwInit)\<lparr>prev := p\<rparr>)"
proof -
  have i: "lzw_inv lzwInit" by (simp add: lzw_inv_def lzwInit_def)
  have "pack_inv (emit clearCode lzwInit)"
    using i pack_inv_init by (rule emit_run) (simp_all add: clearCode_def lzwInit_def)
  then show ?thesis
    unfolding run_inv_def using assms
    by (simp add: lzw_inv_init pack_inv_fields emit_fields) (simp add: lzwInit_def)
qed

lemma run_inv_loop:
  assumes "\<forall>v \<in> set pixels. 0 \<le> v \<and> v < 256"
  shows "run_inv (lzwLoop pixels)"
proof (cases pixels)
  case Nil
  then show ?thesis by (simp add: lzwLoop_def run_inv_init)
next
  case (Cons p rest)
  with assms show ?thesis
    by (simp add: lzwLoop_def run_inv_init run_inv_fold)
qed

lemma payload_bits:
  assumes "\<forall>v \<in> set pixels. 0 \<le> v \<and> v < 256"
  shows "\<exists>k<8. byteBits (output_bytes (lzwCompress pixels))
             = codeBits (emitted (lzwCompress pixels)) @ replicate k False"
proof -
  define s where "s = lzwLoop pixels"
  from run_inv_loop [OF assms] have inv: "lzw_inv s" and pk: "pack_inv s"
    and pv: "0 \<le> prev s" "prev s < nextCode s"
    unfolding s_def run_inv_def by simp_all
  define s3 where "s3 = emit (prev s) s"
  define s4 where "s4 = emit eoiCode s3"
  have pk3: "pack_inv s3" unfolding s3_def using inv pk pv by (rule emit_run)
  have inv3: "lzw_inv s3" unfolding s3_def by (simp add: lzw_inv_emit inv)
  have "258 \<le> nextCode s3" using lzw_inv_size [OF inv3] by simp
  then have pk4: "pack_inv s4"
    unfolding s4_def using inv3 pk3 by (intro emit_run) (simp_all add: eoiCode_def)
  have c: "lzwCompress pixels = flush s4"
    by (simp add: lzwCompress_def Let_def s_def s3_def s4_def)
  define n where "n = nat (bufferLen s4)"
  from pk4 have bl: "0 \<le> bufferLen s4" "bufferLen s4 < 8"
    and tb: "take_bit n (buffer s4) = buffer s4"
    and eq: "byteBits (output_bytes s4) @ bitsOf (buffer s4) n = codeBits (emitted s4)"
    unfolding pack_inv_def n_def by simp_all
  have n8: "n < 8" using bl by (simp add: n_def)
  show ?thesis
  proof (cases "bufferLen s4 > 0")
    case False
    with bl have "n = 0" by (simp add: n_def)
    with eq have "byteBits (output_bytes s4) = codeBits (emitted s4) @ replicate 0 False"
      by (simp add: bitsOf_def)
    with False show ?thesis
      unfolding c by (intro exI [of _ 0]) (simp add: flush_def)
  next
    case True
    then have n0: "0 < n" by (simp add: n_def)
    have t8: "take_bit 8 (buffer s4) = buffer s4"
      using tb by (rule take_bit_widen) (use n8 in simp)
    have "js_and (buffer s4) 0xFF = buffer s4"
      using t8 by (simp add: js_and_255 take_bit_eq_mod)
    moreover have "bitsOf (buffer s4) (n + (8 - n)) = bitsOf (buffer s4) n @ replicate (8 - n) False"
      using tb by (rule bitsOf_pad)
    then have "bitsOf (buffer s4) 8 = bitsOf (buffer s4) n @ replicate (8 - n) False"
      using n8 by simp
    ultimately have "byteBits (output_bytes (flush s4)) = codeBits (emitted s4) @ replicate (8 - n) False"
      using True eq by (simp add: flush_def byteBits_snoc)
    moreover have "emitted (flush s4) = emitted s4" by (simp add: flush_def)
    ultimately show ?thesis
      unfolding c using n0 by (intro exI [of _ "8 - n"]) simp
  qed
qed

lemma length_byteBits: "length (byteBits bs) = 8 * length bs"
  by (induction bs) (simp_all add: byteBits_def bitsOf_length)

lemma length_codeBits: "length (codeBits tr) = sum_list (map nat (map snd tr))"
  by (induction tr) (auto simp add: codeBits_def bitsOf_length)

lemma emitted_black:
  "emitted (lzwCompress [0, 0, 0, 0]) = [(256, 9), (0, 9), (258, 9), (0, 9), (257, 9)]"
  by (simp add: emitted_compress lzwLoop_def lzwStep_def Let_def emit_fields register_def
        js_shl_1 lzwInit_def clearCode_def)

lemma black_bits:
  "byteBits [0, 1, 8, 4, 16, 16] =
     codeBits [(256, 9), (0, 9), (258, 9), (0, 9), (257, 9)] @ replicate 3 False"
proof -
  have "\<forall>v \<in> set [0, 0, 0, 0 :: int]. 0 \<le> v \<and> v < 256" by simp
  from payload_bits [OF this] obtain k where k: "k < 8"
    "byteBits [0, 1, 8, 4, 16, 16] =
       codeBits [(256, 9), (0, 9), (258, 9), (0, 9), (257, 9)] @ replicate k False"
    unfolding out_black emitted_black by blast
  from k(2) have "length (byteBits [0, 1, 8, 4, 16, 16 :: int]) =
       length (codeBits [(256, 9), (0, 9), (258, 9), (0, 9), (257, 9)] @ replicate k False)"
    by (rule arg_cong)
  then have "k = 3"
    by (simp add: length_byteBits length_codeBits)
  with k(2) show ?thesis by simp
qed

lemma fresh_range: "i < 65536 \<Longrightarrow> 0 \<le> fresh i \<and> fresh i < 256"
proof -
  assume "i < 65536"
  then have "i div 2 div 128 < 256" by simp
  moreover have "i div 2 mod 128 < 128" by simp
  ultimately show ?thesis unfolding fresh_def by auto
qed

lemma freshStream_range: "n \<le> 65536 \<Longrightarrow> \<forall>v \<in> set (freshStream n). 0 \<le> v \<and> v < 256"
  unfolding freshStream_def using fresh_range by auto

lemma codeBits_Cons: "codeBits ((c, w) # tr) = bitsOf c (nat w) @ codeBits tr"
  by (simp add: codeBits_def)

lemma codeBits_append: "codeBits (xs @ ys) = codeBits xs @ codeBits ys"
  by (simp add: codeBits_def)

lemma codeBits_map: "codeBits (map (\<lambda>i. (f i, g i)) xs) = concat (map (\<lambda>i. bitsOf (f i) (nat (g i))) xs)"
  by (induction xs) (simp_all add: codeBits_def)

lemma fresh_511_bits:
  assumes "distinct (zip (r # rest) rest)" "length rest = 511" "\<forall>v \<in> set (r # rest). 0 \<le> v \<and> v < 256"
  shows "byteBits (output_bytes (lzwCompress (r # rest))) =
           bitsOf 256 9
           @ concat (map (\<lambda>i. bitsOf ((r # rest) ! i) (if 258 + int i \<le> 512 then 9 else 10)) [0..<511])
           @ bitsOf ((r # rest) ! 511) 10 @ bitsOf 257 10 @ replicate 4 False"
    and "length (output_bytes (lzwCompress (r # rest))) = 611"
proof -
  from assms(2) have l: "length rest \<le> 3838" by simp
  from fresh_run [OF assms(1) l, folded lzwLoop_Cons]
  have pv: "prev (lzwLoop (r # rest)) = last (r # rest)" by simp
  have "last (r # rest) = (r # rest) ! (length (r # rest) - 1)"
    by (rule last_conv_nth) simp
  moreover have "length (r # rest) - 1 = 511" using assms(2) by simp
  ultimately have "last (r # rest) = (r # rest) ! 511" by (simp only:)
  with pv have pv': "prev (lzwLoop (r # rest)) = (r # rest) ! 511" by (simp only:)
  note f = fresh_511 [OF assms(1,2)]
  have c: "codeSize (lzwLoop (r # rest)) = 10"
    using inv_width [OF lzw_inv_loop, of "r # rest"] by (simp add: f(1) widthFor_def)
  have em: "emitted (lzwCompress (r # rest)) =
      (256, 9) # map (\<lambda>i. ((r # rest) ! i, if 258 + int i \<le> 512 then 9 else 10)) [0..<511]
      @ [((r # rest) ! 511, 10), (257, 10)]"
    by (simp only: emitted_compress f(2) c pv') simp
  have n: "(\<lambda>i. bitsOf ((r # rest) ! i) (nat (if 258 + int i \<le> 512 then 9 else 10)))
      = (\<lambda>i. bitsOf ((r # rest) ! i) (if 258 + int i \<le> 512 then 9 else 10))"
    by (rule ext) simp
  have cb: "codeBits (emitted (lzwCompress (r # rest))) =
      bitsOf 256 9
      @ concat (map (\<lambda>i. bitsOf ((r # rest) ! i) (if 258 + int i \<le> 512 then 9 else 10)) [0..<511])
      @ bitsOf ((r # rest) ! 511) 10 @ bitsOf 257 10"
    unfolding em codeBits_Cons codeBits_append codeBits_map n
    by (simp add: codeBits_def)
  have len: "length (codeBits (emitted (lzwCompress (r # rest)))) = 4884"
    unfolding length_codeBits f(3) by (simp add: sum_list_replicate)
  from payload_bits [OF assms(3)] obtain k where k: "k < 8"
    "byteBits (output_bytes (lzwCompress (r # rest)))
       = codeBits (emitted (lzwCompress (r # rest))) @ replicate k False"
    by blast
  from k(2) have "length (byteBits (output_bytes (lzwCompress (r # rest))))
       = length (codeBits (emitted (lzwCompress (r # rest))) @ replicate k False)"
    by (rule arg_cong)
  then have e: "8 * length (output_bytes (lzwCompress (r # rest))) = 4884 + k"
    by (simp add: length_byteBits len)
  have "\<not> length (output_bytes (lzwCompress (r # rest))) \<le> 610"
    using e by linarith
  moreover have "\<not> 612 \<le> length (output_bytes (lzwCompress (r # rest)))"
    using e k(1) by linarith
  ultimately have L: "length (output_bytes (lzwCompress (r # rest))) = 611"
    by linarith
  with e have "k = 4" by simp
  with L have "k = 4 \<and> length (output_bytes (lzwCompress (r # rest))) = 611"
    by simp
  then show "length (output_bytes (lzwCompress (r # rest))) = 611"
    and "byteBits (output_bytes (lzwCompress (r # rest))) =
           bitsOf 256 9
           @ concat (map (\<lambda>i. bitsOf ((r # rest) ! i) (if 258 + int i \<le> 512 then 9 else 10)) [0..<511])
           @ bitsOf ((r # rest) ! 511) 10 @ bitsOf 257 10 @ replicate 4 False"
    using k(2) by (simp_all only: cb append_assoc)
qed

lemma loop_black: "prev (lzwLoop [0, 0, 0, 0]) = 0" "codeSize (lzwLoop [0, 0, 0, 0]) = 9"
  by (simp_all add: lzwLoop_def lzwStep_def Let_def emit_fields register_def
        js_shl_1 lzwInit_def clearCode_def)

lemma emitted_compress_shape:
  "\<exists>ys. emitted (lzwCompress (p # rest)) =
     (clearCode, 9) # ys @ [(prev (lzwLoop (p # rest)), codeSize (lzwLoop (p # rest))),
                            (eoiCode, codeSize (lzwLoop (p # rest)))]"
proof -
  from emitted_fold obtain ys where
    "emitted (fold lzwStep rest ((emit clearCode lzwInit)\<lparr>prev := p\<rparr>)) =
       emitted ((emit clearCode lzwInit)\<lparr>prev := p\<rparr>) @ ys" by blast
  then have "emitted (lzwLoop (p # rest)) = (clearCode, 9) # ys"
    unfolding emitted_init by (simp add: lzwLoop_def clearCode_def)
  then have "emitted (lzwCompress (p # rest)) =
     (clearCode, 9) # ys @ [(prev (lzwLoop (p # rest)), codeSize (lzwLoop (p # rest))),
                            (eoiCode, codeSize (lzwLoop (p # rest)))]"
    by (simp add: emitted_compress eoiCode_def)
  then show ?thesis by (rule exI)
qed

section \<open>The code stream\<close>

text \<open>
  Claim C5. For every non-empty index plane \<open>p # rest\<close>, the codes passed to \<^verbatim>\<open>emit\<close> by
  \<^verbatim>\<open>lzwEncode\<close>, in order, are the clear code 256, then the codes written by the loop, then
  the code of the current sequence at the end of the loop (\<^verbatim>\<open>prev\<close>) and last the
  end-of-information code 257. When the index plane holds byte values, as every index plane
  that \<^verbatim>\<open>addFrame\<close> computes does (it is a \<^verbatim>\<open>Uint8Array\<close>), this is also what the bytes pushed
  to \<^verbatim>\<open>output\<close> hold: read bit by bit, the least significant bit of each byte first, they are
  the 9 bits of the clear code, the bits of the codes of the loop, the bits of the code of the
  final current sequence and the bits of the end-of-information code, both with the width
  \<^verbatim>\<open>codeSize\<close> has at the end of the loop, and then fewer than 8 zero bits that complete the
  last byte; and every one of these bytes is from 0 to 255. The bytes that \<^verbatim>\<open>lzwEncode\<close> appends to
  the stream are these bytes cut into sub-blocks, each after its length. The 2 x 2 all-black
  frame has the index plane of four zeros; its codes are 256, 0, 258, 0, 257, its payload is the
  six bytes 0, 1, 8, 4, 16, 16, and the bits of these bytes are the five codes with 9 bits each
  and 3 zero bits.
\<close>
theorem lzw_codes_shape:
  "(\<exists>mid. map fst (emitted (lzwCompress (p # rest))) =
            clearCode # mid @ [prev (lzwLoop (p # rest)), eoiCode])
   \<and> clearCode = 256 \<and> eoiCode = 257
   \<and> ((\<forall>v \<in> set (p # rest). 0 \<le> v \<and> v < 256) \<longrightarrow>
        (\<exists>ys k. k < 8
           \<and> emitted (lzwCompress (p # rest)) =
               (clearCode, 9) # ys @ [(prev (lzwLoop (p # rest)), codeSize (lzwLoop (p # rest))),
                                      (eoiCode, codeSize (lzwLoop (p # rest)))]
           \<and> byteBits (output_bytes (lzwCompress (p # rest))) =
               bitsOf clearCode 9 @ codeBits ys
               @ bitsOf (prev (lzwLoop (p # rest))) (nat (codeSize (lzwLoop (p # rest))))
               @ bitsOf eoiCode (nat (codeSize (lzwLoop (p # rest))))
               @ replicate k False)
        \<and> (\<forall>b \<in> set (output_bytes (lzwCompress (p # rest))). 0 \<le> b \<and> b < 256))
   \<and> (\<exists>chunks. data (lzwEncode (p # rest) e) = data e @ concat (map (\<lambda>c. int (length c) # c) chunks)
          \<and> concat chunks = output_bytes (lzwCompress (p # rest)))
   \<and> (\<forall>v \<in> set (indexed pixels). 0 \<le> v \<and> v < 256)
   \<and> indexed black4 = [0, 0, 0, 0]
   \<and> map fst (emitted (lzwCompress (indexed black4))) = [256, 0, 258, 0, 257]
   \<and> output_bytes (lzwCompress (indexed black4)) = [0, 1, 8, 4, 16, 16]
   \<and> byteBits [0, 1, 8, 4, 16, 16] =
       bitsOf 256 9 @ bitsOf 0 9 @ bitsOf 258 9 @ bitsOf 0 9 @ bitsOf 257 9 @ replicate 3 False"
proof (intro conjI impI)
  show "\<exists>mid. map fst (emitted (lzwCompress (p # rest))) =
            clearCode # mid @ [prev (lzwLoop (p # rest)), eoiCode]"
    using codes_shape [of p rest] by (simp add: clearCode_def eoiCode_def)
  show "clearCode = 256" "eoiCode = 257" by (simp_all add: clearCode_def eoiCode_def)
  from lzwEncode_chunks [of "p # rest" e]
  show "\<exists>chunks. data (lzwEncode (p # rest) e) = data e @ concat (map (\<lambda>c. int (length c) # c) chunks)
          \<and> concat chunks = output_bytes (lzwCompress (p # rest))"
    by blast
  show "\<forall>v \<in> set (indexed pixels). 0 \<le> v \<and> v < 256"
    using indexed_bytes by blast
  show "indexed black4 = [0, 0, 0, 0]" by (rule indexed_black)
  show "map fst (emitted (lzwCompress (indexed black4))) = [256, 0, 258, 0, 257]"
    by (simp add: indexed_black codes_black)
  show "output_bytes (lzwCompress (indexed black4)) = [0, 1, 8, 4, 16, 16]"
    by (simp add: indexed_black out_black)
  show "byteBits [0, 1, 8, 4, 16, 16] =
       bitsOf 256 9 @ bitsOf 0 9 @ bitsOf 258 9 @ bitsOf 0 9 @ bitsOf 257 9 @ replicate 3 False"
    using black_bits by (simp add: codeBits_def)
next
  assume r: "\<forall>v \<in> set (p # rest). 0 \<le> v \<and> v < 256"
  from emitted_compress_shape [of p rest] obtain ys where
    e: "emitted (lzwCompress (p # rest)) =
        (clearCode, 9) # ys @ [(prev (lzwLoop (p # rest)), codeSize (lzwLoop (p # rest))),
                               (eoiCode, codeSize (lzwLoop (p # rest)))]"
    by blast
  from payload_bits [OF r] obtain k where k: "k < 8"
    "byteBits (output_bytes (lzwCompress (p # rest)))
       = codeBits (emitted (lzwCompress (p # rest))) @ replicate k False"
    by blast
  have "byteBits (output_bytes (lzwCompress (p # rest))) =
               bitsOf clearCode 9 @ codeBits ys
               @ bitsOf (prev (lzwLoop (p # rest))) (nat (codeSize (lzwLoop (p # rest))))
               @ bitsOf eoiCode (nat (codeSize (lzwLoop (p # rest))))
               @ replicate k False"
    unfolding k(2) e by (simp add: codeBits_Cons codeBits_append) (simp add: codeBits_def)
  with k(1) e show "\<exists>ys k. k < 8
           \<and> emitted (lzwCompress (p # rest)) =
               (clearCode, 9) # ys @ [(prev (lzwLoop (p # rest)), codeSize (lzwLoop (p # rest))),
                                      (eoiCode, codeSize (lzwLoop (p # rest)))]
           \<and> byteBits (output_bytes (lzwCompress (p # rest))) =
               bitsOf clearCode 9 @ codeBits ys
               @ bitsOf (prev (lzwLoop (p # rest))) (nat (codeSize (lzwLoop (p # rest))))
               @ bitsOf eoiCode (nat (codeSize (lzwLoop (p # rest))))
               @ replicate k False"
    by blast
  show "\<forall>b \<in> set (output_bytes (lzwCompress (p # rest))). 0 \<le> b \<and> b < 256"
    using bytes_ok_compress [of "p # rest"] by (simp add: bytes_ok_def)
qed

theorem lzw_codes_shape_witness:
  "output_bytes (lzwCompress [0, 0, 0, 0]) = [0, 1, 8, 4, 16, 16]
   \<and> byteBits (output_bytes (lzwCompress [0, 0, 0, 0])) =
       bitsOf 256 9 @ codeBits [(0, 9), (258, 9)] @ bitsOf 0 9 @ bitsOf 257 9 @ replicate 3 False"
proof -
  have r: "\<forall>v \<in> set [0, 0, 0, 0 :: int]. 0 \<le> v \<and> v < 256" by simp
  with lzw_codes_shape [where p = 0 and rest = "[0, 0, 0]"] obtain ys k where k: "k < 8"
    and e: "emitted (lzwCompress [0, 0, 0, 0]) =
        (clearCode, 9) # ys @ [(prev (lzwLoop [0, 0, 0, 0]), codeSize (lzwLoop [0, 0, 0, 0])),
                               (eoiCode, codeSize (lzwLoop [0, 0, 0, 0]))]"
    and b: "byteBits (output_bytes (lzwCompress [0, 0, 0, 0])) =
               bitsOf clearCode 9 @ codeBits ys
               @ bitsOf (prev (lzwLoop [0, 0, 0, 0])) (nat (codeSize (lzwLoop [0, 0, 0, 0])))
               @ bitsOf eoiCode (nat (codeSize (lzwLoop [0, 0, 0, 0])))
               @ replicate k False"
    by blast
  from e have ys: "ys = [(0, 9), (258, 9)]"
    by (simp add: emitted_black loop_black clearCode_def eoiCode_def)
  from b have "length (byteBits (output_bytes (lzwCompress [0, 0, 0, 0]))) =
      length (bitsOf clearCode 9 @ codeBits ys
               @ bitsOf (prev (lzwLoop [0, 0, 0, 0])) (nat (codeSize (lzwLoop [0, 0, 0, 0])))
               @ bitsOf eoiCode (nat (codeSize (lzwLoop [0, 0, 0, 0])))
               @ replicate k False)"
    by (rule arg_cong)
  then have "k = 3"
    by (simp add: length_byteBits length_codeBits bitsOf_length out_black ys loop_black)
  with b ys show ?thesis
    by (simp add: out_black loop_black clearCode_def eoiCode_def)
qed

section \<open>The growth of the code width\<close>

text \<open>
  Claim C1. In \<^verbatim>\<open>lzwEncode\<close>, for every index plane: \<^verbatim>\<open>codeSize\<close> is 9 when the loop
  starts, and the clear code is written with 9 bits; at the end of every run of the loop
  \<^verbatim>\<open>codeSize\<close> is the least width from 9 to 12 with \<^verbatim>\<open>nextCode\<close> at most
  \<open>2 ^ codeSize\<close>. An iteration that finds no dictionary entry while \<^verbatim>\<open>nextCode\<close> is below
  4096 writes the code of \<^verbatim>\<open>prev\<close> with the width it found, then registers the new entry under
  \<^verbatim>\<open>nextCode\<close>, increments \<^verbatim>\<open>nextCode\<close>, and only then adds one bit to \<^verbatim>\<open>codeSize\<close>,
  exactly when the new \<^verbatim>\<open>nextCode\<close> exceeds \<open>2 ^ codeSize\<close> and \<^verbatim>\<open>codeSize\<close> is below 12.
  In an index plane of 512 values whose adjacent pairs are all different, so that each of the 511
  iterations registers a new entry, the \<open>i\<close>-th iteration writes its code while \<^verbatim>\<open>nextCode\<close>
  is \<open>258 + i\<close>, with 9 bits as long as that is at most \<open>2 ^ 9\<close> and with 10 bits after: the
  clear code and 255 codes have 9 bits, and the code written right after the entry that takes
  \<^verbatim>\<open>nextCode\<close> to 513 is the first one of 10 bits.

  The width of a code is the number of bits it takes in the bytes written. When the index plane
  holds byte values, then at the end of every run of the loop fewer than 8 bits are pending in
  \<^verbatim>\<open>buffer\<close>, and the bytes pushed to \<^verbatim>\<open>output\<close> followed by the pending bits are, bit by
  bit, the codes written so far, each with the width \<^verbatim>\<open>codeSize\<close> had when it was written; the
  whole payload is the bits of all the codes, followed by fewer than 8 zero bits. For the index
  plane of 512 values above, the payload has 611 bytes, and its bits are the 9 bits of the clear
  code, the code of each iteration with 9 bits for the first 255 and 10 bits from the 256th on,
  the last current code and the end-of-information code with 10 bits each, and 4 zero bits.
\<close>
theorem code_width_growth:
  fixes q c r :: int and qs :: "int list"
  defines "s \<equiv> lzwLoop (q # qs)" and "s' \<equiv> lzwLoop (q # qs @ [c])"
  shows "codeSize (lzwLoop [p]) = 9 \<and> emitted (lzwLoop [p]) = [(clearCode, 9)]
    \<and> (codeSize (lzwLoop pixels) = 9 \<and> nextCode (lzwLoop pixels) \<le> 2 ^ 9
       \<or> codeSize (lzwLoop pixels) = 10 \<and> 2 ^ 9 < nextCode (lzwLoop pixels) \<and> nextCode (lzwLoop pixels) \<le> 2 ^ 10
       \<or> codeSize (lzwLoop pixels) = 11 \<and> 2 ^ 10 < nextCode (lzwLoop pixels) \<and> nextCode (lzwLoop pixels) \<le> 2 ^ 11
       \<or> codeSize (lzwLoop pixels) = 12 \<and> 2 ^ 11 < nextCode (lzwLoop pixels) \<and> nextCode (lzwLoop pixels) \<le> 2 ^ 12)
    \<and> (dict s (prev s, c) = None \<and> nextCode s < 4096 \<longrightarrow>
         emitted s' = emitted s @ [(prev s, codeSize s)]
         \<and> dict s' = (dict s)((prev s, c) \<mapsto> nextCode s)
         \<and> nextCode s' = nextCode s + 1
         \<and> codeSize s' = (if nextCode s + 1 > 2 ^ nat (codeSize s) \<and> codeSize s < 12
                           then codeSize s + 1 else codeSize s))
    \<and> (distinct (zip (r # rest) rest) \<and> length rest = 511 \<longrightarrow>
         nextCode (lzwLoop (r # rest)) = 258 + 511
         \<and> emitted (lzwLoop (r # rest)) =
             (clearCode, 9) # map (\<lambda>i. ((r # rest) ! i, if 258 + int i \<le> 2 ^ 9 then 9 else 10)) [0..<511]
         \<and> map snd (emitted (lzwCompress (r # rest))) = replicate 256 9 @ replicate 258 10)
    \<and> ((\<forall>v \<in> set pixels. 0 \<le> v \<and> v < 256) \<longrightarrow>
         0 \<le> bufferLen (lzwLoop pixels) \<and> bufferLen (lzwLoop pixels) < 8
         \<and> byteBits (output_bytes (lzwLoop pixels))
             @ bitsOf (buffer (lzwLoop pixels)) (nat (bufferLen (lzwLoop pixels)))
           = codeBits (emitted (lzwLoop pixels))
         \<and> (\<exists>k. k < 8 \<and> byteBits (output_bytes (lzwCompress pixels))
                            = codeBits (emitted (lzwCompress pixels)) @ replicate k False))
    \<and> (distinct (zip (r # rest) rest) \<and> length rest = 511
         \<and> (\<forall>v \<in> set (r # rest). 0 \<le> v \<and> v < 256) \<longrightarrow>
         byteBits (output_bytes (lzwCompress (r # rest))) =
           bitsOf clearCode 9
           @ concat (map (\<lambda>i. bitsOf ((r # rest) ! i) (if 258 + int i \<le> 2 ^ 9 then 9 else 10)) [0..<511])
           @ bitsOf ((r # rest) ! 511) 10 @ bitsOf eoiCode 10 @ replicate 4 False
         \<and> length (output_bytes (lzwCompress (r # rest))) = 611)"
proof (intro conjI impI)
  show "codeSize (lzwLoop [p]) = 9" "emitted (lzwLoop [p]) = [(clearCode, 9)]"
    by (simp_all add: lzwLoop_def emit_fields lzwInit_def)
  from lzw_inv_loop [of pixels]
  show "codeSize (lzwLoop pixels) = 9 \<and> nextCode (lzwLoop pixels) \<le> 2 ^ 9
       \<or> codeSize (lzwLoop pixels) = 10 \<and> 2 ^ 9 < nextCode (lzwLoop pixels) \<and> nextCode (lzwLoop pixels) \<le> 2 ^ 10
       \<or> codeSize (lzwLoop pixels) = 11 \<and> 2 ^ 10 < nextCode (lzwLoop pixels) \<and> nextCode (lzwLoop pixels) \<le> 2 ^ 11
       \<or> codeSize (lzwLoop pixels) = 12 \<and> 2 ^ 11 < nextCode (lzwLoop pixels) \<and> nextCode (lzwLoop pixels) \<le> 2 ^ 12"
    unfolding lzw_inv_def by simp
next
  assume a: "dict s (prev s, c) = None \<and> nextCode s < 4096"
  have inv: "lzw_inv s" unfolding s_def by (rule lzw_inv_loop)
  have st: "s' = lzwStep c s" unfolding s_def s'_def by (rule lzwLoop_snoc)
  from a have miss: "dict s (prev s, c) = None" and room: "nextCode s < 4096" by simp_all
  note m = lzwStep_miss_room [OF inv miss room]
  show "emitted s' = emitted s @ [(prev s, codeSize s)]" unfolding st by (rule m)
  show "dict s' = (dict s)((prev s, c) \<mapsto> nextCode s)" unfolding st by (rule m)
  show "nextCode s' = nextCode s + 1" unfolding st by (rule m)
  show "codeSize s' = (if nextCode s + 1 > 2 ^ nat (codeSize s) \<and> codeSize s < 12
                           then codeSize s + 1 else codeSize s)" unfolding st by (rule m)
next
  assume a: "distinct (zip (r # rest) rest) \<and> length rest = 511"
  then have d: "distinct (zip (r # rest) rest)" and l: "length rest = 511" by simp_all
  from fresh_511 [OF d l]
  show "nextCode (lzwLoop (r # rest)) = 258 + 511"
    and "emitted (lzwLoop (r # rest)) =
             (clearCode, 9) # map (\<lambda>i. ((r # rest) ! i, if 258 + int i \<le> 2 ^ 9 then 9 else 10)) [0..<511]"
    and "map snd (emitted (lzwCompress (r # rest))) = replicate 256 9 @ replicate 258 10"
    by (simp_all add: clearCode_def)
next
  assume rg: "\<forall>v \<in> set pixels. 0 \<le> v \<and> v < 256"
  from run_inv_loop [OF rg] have pk: "pack_inv (lzwLoop pixels)"
    by (simp add: run_inv_def)
  from pk show "0 \<le> bufferLen (lzwLoop pixels)" "bufferLen (lzwLoop pixels) < 8"
    "byteBits (output_bytes (lzwLoop pixels))
             @ bitsOf (buffer (lzwLoop pixels)) (nat (bufferLen (lzwLoop pixels)))
           = codeBits (emitted (lzwLoop pixels))"
    by (simp_all add: pack_inv_def)
  from payload_bits [OF rg]
  show "\<exists>k. k < 8 \<and> byteBits (output_bytes (lzwCompress pixels))
                            = codeBits (emitted (lzwCompress pixels)) @ replicate k False"
    by blast
next
  assume a: "distinct (zip (r # rest) rest) \<and> length rest = 511
         \<and> (\<forall>v \<in> set (r # rest). 0 \<le> v \<and> v < 256)"
  then have d: "distinct (zip (r # rest) rest)" and l: "length rest = 511"
    and rg: "\<forall>v \<in> set (r # rest). 0 \<le> v \<and> v < 256" by simp_all
  have e: "(2::int) ^ 9 = 512" by simp
  from fresh_511_bits [OF d l rg]
  show "byteBits (output_bytes (lzwCompress (r # rest))) =
           bitsOf clearCode 9
           @ concat (map (\<lambda>i. bitsOf ((r # rest) ! i) (if 258 + int i \<le> 2 ^ 9 then 9 else 10)) [0..<511])
           @ bitsOf ((r # rest) ! 511) 10 @ bitsOf eoiCode 10 @ replicate 4 False"
    and "length (output_bytes (lzwCompress (r # rest))) = 611"
    unfolding clearCode_def eoiCode_def e by - assumption+
qed

theorem code_width_growth_witness:
  "dict (lzwLoop [0]) (prev (lzwLoop [0]), 0) = None \<and> nextCode (lzwLoop [0]) < 4096
   \<and> emitted (lzwLoop [0, 0]) = [(256, 9), (0, 9)]
   \<and> nextCode (lzwLoop [0, 0]) = 259 \<and> codeSize (lzwLoop [0, 0]) = 9
   \<and> distinct (zip (freshStream 512) (tl (freshStream 512)))
   \<and> length (tl (freshStream 512)) = 511
   \<and> nextCode (lzwLoop (freshStream 512)) = 769
   \<and> map snd (emitted (lzwCompress (freshStream 512))) = replicate 256 9 @ replicate 258 10
   \<and> byteBits (output_bytes (lzwLoop [0])) @ bitsOf (buffer (lzwLoop [0])) (nat (bufferLen (lzwLoop [0])))
       = codeBits [(256, 9)]
   \<and> output_bytes (lzwLoop [0]) = [0] \<and> buffer (lzwLoop [0]) = 1 \<and> bufferLen (lzwLoop [0]) = 1
   \<and> byteBits (output_bytes (lzwCompress (freshStream 512))) =
           bitsOf 256 9
           @ concat (map (\<lambda>i. bitsOf (freshStream 512 ! i) (if 258 + int i \<le> 512 then 9 else 10)) [0..<511])
           @ bitsOf (freshStream 512 ! 511) 10 @ bitsOf 257 10 @ replicate 4 False
   \<and> length (output_bytes (lzwCompress (freshStream 512))) = 611"
proof -
  have n: "(512::nat) = Suc 511" by simp
  have h1: "dict (lzwLoop [0]) (prev (lzwLoop [0]), 0) = None \<and> nextCode (lzwLoop [0]) < 4096"
    by (simp add: lzwLoop_def emit_fields lzwInit_def)
  have v: "prev (lzwLoop [0]) = 0" "nextCode (lzwLoop [0]) = 258" "codeSize (lzwLoop [0]) = 9"
    "emitted (lzwLoop [0]) = [(256, 9)]"
    by (simp_all add: lzwLoop_def emit_fields lzwInit_def clearCode_def)
  have d: "distinct (zip (fresh 0 # tl (freshStream 512)) (tl (freshStream 512)))"
    unfolding n freshStream_Cons [symmetric] by (rule fresh_distinct) simp
  have l: "length (tl (freshStream 512)) = 511"
    unfolding n by (rule freshStream_tl_length)
  have f: "fresh 0 # tl (freshStream 512) = freshStream 512"
    unfolding n by (rule freshStream_Cons [symmetric])
  have rg: "\<forall>v \<in> set (fresh 0 # tl (freshStream 512)). 0 \<le> v \<and> v < 256"
    unfolding f by (rule freshStream_range) simp
  have r0: "\<forall>v \<in> set [0::int]. 0 \<le> v \<and> v < 256" by simp
  have b0: "output_bytes (lzwLoop [0]) = [0]" "buffer (lzwLoop [0]) = 1" "bufferLen (lzwLoop [0]) = 1"
    by (simp_all add: lzwLoop_def emit_def drain.simps js_shl_def js_or_def js_shr_def js_and_def
          ToInt32_def lzwInit_def clearCode_def)
  note T = code_width_growth [where q = 0 and qs = "[]" and c = 0 and r = "fresh 0"
      and rest = "tl (freshStream 512)" and p = 0 and pixels = "[0]"]
  from T h1 d l
  have A: "dict (lzwLoop [0]) (prev (lzwLoop [0]), 0) = None \<and> nextCode (lzwLoop [0]) < 4096
   \<and> emitted (lzwLoop [0, 0]) = [(256, 9), (0, 9)]
   \<and> nextCode (lzwLoop [0, 0]) = 259 \<and> codeSize (lzwLoop [0, 0]) = 9
   \<and> distinct (zip (freshStream 512) (tl (freshStream 512)))
   \<and> length (tl (freshStream 512)) = 511
   \<and> nextCode (lzwLoop (freshStream 512)) = 769
   \<and> map snd (emitted (lzwCompress (freshStream 512))) = replicate 256 9 @ replicate 258 10"
    unfolding f by (simp add: v)
  from T r0 have B: "byteBits (output_bytes (lzwLoop [0])) @ bitsOf (buffer (lzwLoop [0])) (nat (bufferLen (lzwLoop [0])))
       = codeBits [(256, 9)]"
    unfolding v(4) [symmetric] by blast
  have e: "(2::int) ^ 9 = 512" by simp
  from T d l rg have C: "byteBits (output_bytes (lzwCompress (freshStream 512))) =
           bitsOf 256 9
           @ concat (map (\<lambda>i. bitsOf (freshStream 512 ! i) (if 258 + int i \<le> 512 then 9 else 10)) [0..<511])
           @ bitsOf (freshStream 512 ! 511) 10 @ bitsOf 257 10 @ replicate 4 False
   \<and> length (output_bytes (lzwCompress (freshStream 512))) = 611"
    unfolding f clearCode_def eoiCode_def e by blast
  from A B b0 C show ?thesis by blast
qed

end
